theory Spec2Isabelle
  imports Main "HOL-Library.Word"
begin

unbundle bit_operations_syntax

section \<open>Bytes, arrays and slices\<close>

text \<open>
  A Go \<open>byte\<close> is an 8-bit word.  Fixed-size arrays (\<open>[32]byte\<close>, \<open>[64]byte\<close>, ...) and
  slices are lists of bytes; the size that the Go type fixes is stated where a theorem
  depends on it.  A Go \<open>string\<close> is its sequence of bytes.
\<close>

type_synonym byte = "8 word"

text \<open>\<open>var a [n]byte\<close>: the zero value of an array.\<close>

definition zero_array :: "nat \<Rightarrow> byte list" where
  "zero_array n = replicate n 0"

text \<open>The slice expression \<open>a[lo:hi]\<close>.\<close>

definition slice :: "'a list \<Rightarrow> nat \<Rightarrow> nat \<Rightarrow> 'a list" where
  "slice a lo hi = take (hi - lo) (drop lo a)"

text \<open>
  The builtin \<open>copy(dst, src)\<close> copies \<open>min(len(dst), len(src))\<close> elements; the result
  is the new contents of \<open>dst\<close>.
\<close>

definition go_copy :: "'a list \<Rightarrow> 'a list \<Rightarrow> 'a list" where
  "go_copy dst src = (let n = min (length dst) (length src) in take n src @ drop n dst)"

text \<open>\<open>copy(a[lo:hi], src)\<close>: the new contents of the array \<open>a\<close>.\<close>

definition copy_into :: "'a list \<Rightarrow> nat \<Rightarrow> nat \<Rightarrow> 'a list \<Rightarrow> 'a list" where
  "copy_into a lo hi src = take lo a @ go_copy (slice a lo hi) src @ drop hi a"

text \<open>The bytes of a string literal.\<close>

definition bytes_of :: "string \<Rightarrow> byte list" where
  "bytes_of s = map of_char s"

section \<open>Identities and the library primitives\<close>

record Identity =
  X25519Private :: "byte list"
  X25519Public :: "byte list"
  Ed25519Seed :: "byte list"
  Ed25519Public :: "byte list"
  Hash :: "byte list"
  Address :: "byte list"

text \<open>\<open>var identity Identity\<close>: every field is a zeroed array.\<close>

definition zero_Identity :: Identity where
  "zero_Identity =
     \<lparr>X25519Private = zero_array 32, X25519Public = zero_array 32,
      Ed25519Seed = zero_array 32, Ed25519Public = zero_array 32,
      Hash = zero_array 16, Address = zero_array 16\<rparr>"

text \<open>The array sizes that the type \<open>Identity\<close> fixes.\<close>

definition Identity_sized :: "Identity \<Rightarrow> bool" where
  "Identity_sized identity \<longleftrightarrow>
     length (X25519Private identity) = 32 \<and> length (X25519Public identity) = 32 \<and>
     length (Ed25519Seed identity) = 32 \<and> length (Ed25519Public identity) = 32 \<and>
     length (Hash identity) = 16 \<and> length (Address identity) = 16"

text \<open>
  The program calls three functions of libraries outside the repository:
  \<open>sha256.Sum256\<close>, \<open>curve25519.ScalarBaseMult\<close> and
  \<open>ed25519.NewKeyFromSeed(seed).Public()\<close>.  They are parameters of the model.
\<close>

record primitives =
  Sum256 :: "byte list \<Rightarrow> byte list"
  ScalarBaseMult :: "byte list \<Rightarrow> byte list"
  NewKeyFromSeed_Public :: "byte list \<Rightarrow> byte list"

text \<open>The result sizes that the Go types of the three functions fix.\<close>

definition primitives_sized :: "primitives \<Rightarrow> bool" where
  "primitives_sized P \<longleftrightarrow>
     (\<forall>m. length (Sum256 P m) = 32) \<and>
     (\<forall>k. length (ScalarBaseMult P k) = 32) \<and>
     (\<forall>s. length (NewKeyFromSeed_Public P s) = 32)"

section \<open>Key generation\<close>

text \<open>
  \<open>clampX25519\<close>: three in-place updates of the array behind the pointer.
\<close>

definition clampX25519 :: "byte list \<Rightarrow> byte list" where
  "clampX25519 privateKey =
     (let k1 = privateKey[0 := (privateKey ! 0) AND 248];
          k2 = k1[31 := (k1 ! 31) AND 127];
          k3 = k2[31 := (k2 ! 31) OR 64]
      in k3)"

definition generateEd25519Public :: "primitives \<Rightarrow> Identity \<Rightarrow> Identity" where
  "generateEd25519Public P identity =
     (let publicKey = NewKeyFromSeed_Public P (Ed25519Seed identity)
      in identity\<lparr>Ed25519Public := go_copy (Ed25519Public identity) publicKey\<rparr>)"

text \<open>
  The first half of a worker iteration after a successful random draw
  (``Create and derive identity'', ``Generate key pairs'').
\<close>

definition generateKeyPairs :: "primitives \<Rightarrow> byte list \<Rightarrow> Identity" where
  "generateKeyPairs P randBuf =
     (let identity = zero_Identity;
          identity = identity\<lparr>X25519Private :=
                       go_copy (X25519Private identity) (slice randBuf 0 32)\<rparr>;
          identity = identity\<lparr>Ed25519Seed :=
                       go_copy (Ed25519Seed identity) (slice randBuf 32 64)\<rparr>;
          identity = identity\<lparr>X25519Private := clampX25519 (X25519Private identity)\<rparr>;
          identity = identity\<lparr>X25519Public := ScalarBaseMult P (X25519Private identity)\<rparr>
      in generateEd25519Public P identity)"

section \<open>Address derivation\<close>

text \<open>The name hash that a worker computes once, before its loop.\<close>

definition nameHash :: "primitives \<Rightarrow> byte list" where
  "nameHash P = (let nameHashFull = Sum256 P (bytes_of ''lxmf.delivery'') in slice nameHashFull 0 10)"

text \<open>
  The second half of a worker iteration (``Build public key and compute hashes'',
  ``Compute LXMF destination address'').
\<close>

definition computeHashes :: "primitives \<Rightarrow> byte list \<Rightarrow> Identity \<Rightarrow> Identity" where
  "computeHashes P nh identity =
     (let publicKey = zero_array 64;
          publicKey = copy_into publicKey 0 32 (X25519Public identity);
          publicKey = copy_into publicKey 32 64 (Ed25519Public identity);
          identityHashFull = Sum256 P publicKey;
          identity = identity\<lparr>Hash := go_copy (Hash identity) (slice identityHashFull 0 16)\<rparr>;
          addrHashMaterial = zero_array 26;
          addrHashMaterial = copy_into addrHashMaterial 0 10 nh;
          addrHashMaterial = copy_into addrHashMaterial 10 26 (Hash identity);
          addrHashFull = Sum256 P addrHashMaterial
      in identity\<lparr>Address := go_copy (Address identity) (slice addrHashFull 0 16)\<rparr>)"

text \<open>The identity that one iteration builds from the 64 random bytes.\<close>

definition newIdentity :: "primitives \<Rightarrow> byte list \<Rightarrow> Identity" where
  "newIdentity P randBuf = computeHashes P (nameHash P) (generateKeyPairs P randBuf)"

text \<open>
  The derivation in the words of the specification: fingerprint and address as truncated
  hashes of concatenations.
\<close>

definition spec_name_hash :: "primitives \<Rightarrow> byte list" where
  "spec_name_hash P = take 10 (Sum256 P (bytes_of ''lxmf.delivery''))"

definition spec_fingerprint :: "primitives \<Rightarrow> byte list \<Rightarrow> byte list \<Rightarrow> byte list" where
  "spec_fingerprint P exchange_public signing_public =
     take 16 (Sum256 P (exchange_public @ signing_public))"

definition spec_address :: "primitives \<Rightarrow> byte list \<Rightarrow> byte list" where
  "spec_address P fingerprint = take 16 (Sum256 P (spec_name_hash P @ fingerprint))"

section \<open>Pattern parsing and validation\<close>

abbreviation ch :: "char \<Rightarrow> byte" where
  "ch c \<equiv> of_char c"

text \<open>
  \<open>hexToNibbles\<close>: \<open>make([]byte, len(s))\<close> is all zero, and the loop writes position \<open>i\<close>
  only for a digit or a lower-case letter \<open>a\<close>-\<open>f\<close>.  Byte arithmetic is arithmetic of
  8-bit words.
\<close>

function hexToNibbles_loop :: "byte list \<Rightarrow> byte list \<Rightarrow> nat \<Rightarrow> byte list" where
  "hexToNibbles_loop s nibbles i =
     (if i < length s then
        (let c = s ! i;
             nibbles' =
               (if ch CHR ''0'' \<le> c \<and> c \<le> ch CHR ''9'' then nibbles[i := c - ch CHR ''0'']
                else if ch CHR ''a'' \<le> c \<and> c \<le> ch CHR ''f'' then nibbles[i := c - ch CHR ''a'' + 10]
                else nibbles)
         in hexToNibbles_loop s nibbles' (i + 1))
      else nibbles)"
  by pat_completeness auto
termination
  by (relation "measure (\<lambda>(s, nibbles, i). length s - i)") auto

definition hexToNibbles :: "byte list \<Rightarrow> byte list" where
  "hexToNibbles s = hexToNibbles_loop s (replicate (length s) 0) 0"

text \<open>
  \<open>isHex\<close> ranges over the runes of the string.  A byte below \<open>0x80\<close> is always a rune
  of its own, and every other rune (a multi-byte character, or \<open>U+FFFD\<close> for an invalid
  byte) lies outside the three accepted ranges; so the loop accepts a string exactly when
  it accepts each of its bytes, and the model ranges over the bytes.
\<close>

fun isHex :: "byte list \<Rightarrow> bool" where
  "isHex [] = True"
| "isHex (c # cs) =
     (if \<not> ((ch CHR ''0'' \<le> c \<and> c \<le> ch CHR ''9'') \<or>
             (ch CHR ''a'' \<le> c \<and> c \<le> ch CHR ''f'') \<or>
             (ch CHR ''A'' \<le> c \<and> c \<le> ch CHR ''F''))
      then False
      else isHex cs)"

text \<open>
  \<open>validateInputs\<close> reads the three flags \<open>prefix\<close>, \<open>postfix\<close> and \<open>workers\<close>
  (a Go \<open>int\<close>); \<open>None\<close> is the \<open>nil\<close> error, \<open>Some\<close> carries the message.
  \<open>len\<close> of a string counts its bytes.
\<close>

definition validateInputs :: "byte list \<Rightarrow> byte list \<Rightarrow> int \<Rightarrow> string option" where
  "validateInputs pre post workers =
     (if pre \<noteq> [] \<and> length pre > 32 then Some ''prefix must be 1-32 hex characters''
      else if pre \<noteq> [] \<and> \<not> isHex pre
        then Some ''prefix must contain only hex characters [0-9a-fA-F]''
      else if post \<noteq> [] \<and> length post > 32 then Some ''postfix must be 1-32 hex characters''
      else if post \<noteq> [] \<and> \<not> isHex post
        then Some ''postfix must contain only hex characters [0-9a-fA-F]''
      else if pre = [] \<and> post = []
        then Some ''at least one of --prefix or --postfix must be specified''
      else if workers < 1 then Some ''workers must be at least 1''
      else None)"

text \<open>
  \<open>strings.ToLower\<close> belongs to the Go library.  On a string of ASCII bytes it maps
  \<open>A\<close>-\<open>Z\<close> to \<open>a\<close>-\<open>z\<close> and keeps every other byte; \<open>main\<close> calls it only on strings
  that \<open>validateInputs\<close> has accepted, which are ASCII.
\<close>

definition strings_ToLower :: "byte list \<Rightarrow> byte list" where
  "strings_ToLower s = map (\<lambda>c. if ch CHR ''A'' \<le> c \<and> c \<le> ch CHR ''Z'' then c + 32 else c) s"

text \<open>The value of a hexadecimal digit of either case, as the specification understands it.\<close>

definition hex_value :: "byte \<Rightarrow> byte" where
  "hex_value c =
     (if ch CHR ''0'' \<le> c \<and> c \<le> ch CHR ''9'' then c - ch CHR ''0''
      else if ch CHR ''a'' \<le> c \<and> c \<le> ch CHR ''f'' then c - ch CHR ''a'' + 10
      else if ch CHR ''A'' \<le> c \<and> c \<le> ch CHR ''F'' then c - ch CHR ''A'' + 10
      else 0)"

text \<open>
  What the body of the loop of \<open>hexToNibbles\<close> leaves at a position that held \<open>d\<close>, for
  the character \<open>c\<close> there.
\<close>

definition lower_value :: "byte \<Rightarrow> byte \<Rightarrow> byte" where
  "lower_value d c =
     (if ch CHR ''0'' \<le> c \<and> c \<le> ch CHR ''9'' then c - ch CHR ''0''
      else if ch CHR ''a'' \<le> c \<and> c \<le> ch CHR ''f'' then c - ch CHR ''a'' + 10
      else d)"

text \<open>A hexadecimal digit in the words of the specification: \<open>0\<close>-\<open>9\<close>, \<open>a\<close>-\<open>f\<close> or \<open>A\<close>-\<open>F\<close>.\<close>

definition hex_digit :: "byte \<Rightarrow> bool" where
  "hex_digit c \<longleftrightarrow>
     (ch CHR ''0'' \<le> c \<and> c \<le> ch CHR ''9'') \<or>
     (ch CHR ''a'' \<le> c \<and> c \<le> ch CHR ''f'') \<or>
     (ch CHR ''A'' \<le> c \<and> c \<le> ch CHR ''F'')"

section \<open>Pattern matching\<close>

text \<open>
  Go's \<open>/\<close> and \<open>%\<close> on \<open>int\<close> truncate towards zero.
\<close>

definition go_div :: "int \<Rightarrow> int \<Rightarrow> int" where
  "go_div a b = sgn a * sgn b * (\<bar>a\<bar> div \<bar>b\<bar>)"

definition go_mod :: "int \<Rightarrow> int \<Rightarrow> int" where
  "go_mod a b = a - b * go_div a b"

datatype go_panic = IndexOutOfRange

text \<open>An index expression \<open>a[i]\<close> panics outside \<open>0 \<le> i < len(a)\<close>.\<close>

definition index :: "'a list \<Rightarrow> int \<Rightarrow> go_panic + 'a" where
  "index a i = (if 0 \<le> i \<and> i < int (length a) then Inr (a ! nat i) else Inl IndexOutOfRange)"

text \<open>The body of both loops: the nibble of \<open>addr\<close> at a nibble index.\<close>

definition nibbleAt :: "byte list \<Rightarrow> int \<Rightarrow> go_panic + byte" where
  "nibbleAt addr nibbleIdx =
     (let byteIdx = go_div nibbleIdx 2 in
      if go_mod nibbleIdx 2 = 0
      then (case index addr byteIdx of Inl e \<Rightarrow> Inl e | Inr b \<Rightarrow> Inr (drop_bit 4 b AND 0x0F))
      else (case index addr byteIdx of Inl e \<Rightarrow> Inl e | Inr b \<Rightarrow> Inr (b AND 0x0F)))"

text \<open>
  The loop \<open>for i := 0; i < len(nibbles); i++\<close> of either check, with the nibble index
  \<open>startNibble + i\<close> (\<open>startNibble\<close> is 0 in the prefix check).  \<open>Inr False\<close> is the
  \<open>return false\<close> inside the loop, \<open>Inr True\<close> is leaving the loop.
\<close>

function check_loop :: "byte list \<Rightarrow> byte list \<Rightarrow> int \<Rightarrow> nat \<Rightarrow> go_panic + bool" where
  "check_loop addr nibbles startNibble i =
     (if i < length nibbles then
        (case nibbleAt addr (startNibble + int i) of
           Inl e \<Rightarrow> Inl e
         | Inr nibble \<Rightarrow>
             if nibble \<noteq> nibbles ! i then Inr False
             else check_loop addr nibbles startNibble (i + 1))
      else Inr True)"
  by pat_completeness auto
termination
  by (relation "measure (\<lambda>(addr, nibbles, startNibble, i). length nibbles - i)") auto

text \<open>\<open>matchesPattern\<close>, with the two global nibble slices as arguments.\<close>

definition matchesPattern :: "byte list \<Rightarrow> byte list \<Rightarrow> byte list \<Rightarrow> go_panic + bool" where
  "matchesPattern prefixNibbles postfixNibbles addr =
     (case (if length prefixNibbles > 0 then check_loop addr prefixNibbles 0 0 else Inr True) of
        Inl e \<Rightarrow> Inl e
      | Inr False \<Rightarrow> Inr False
      | Inr True \<Rightarrow>
          if length postfixNibbles > 0 then
            (let addrLen = int (length addr) * 2;
                 startNibble = addrLen - int (length postfixNibbles)
             in check_loop addr postfixNibbles startNibble 0)
          else Inr True)"

text \<open>Nibble \<open>i\<close> of an address in the words of the specification.\<close>

definition spec_nibble :: "byte list \<Rightarrow> nat \<Rightarrow> byte" where
  "spec_nibble address i =
     (if even i then drop_bit 4 (address ! (i div 2)) AND 15 else (address ! (i div 2)) AND 15)"

section \<open>The search: main and its workers\<close>

text \<open>
  The goroutines communicate through the atomic counter \<open>totalAttempts\<close>, the atomic flag
  \<open>found\<close>, the channel \<open>resultChan\<close> (capacity 1) and the wait group \<open>wg\<close>; all four
  are synchronising operations, so an execution is an interleaving of the atomic steps
  below.  Everything else is local to one goroutine and is folded into the step that
  follows it.  \<open>monitorProgress\<close> only loads the two atomics and is left out.

  A worker is at one of these points: at the top of its loop before the load of \<open>found\<close>;
  before \<open>rand.Read\<close>; before \<open>atomic.AddUint64\<close>, holding the identity it has derived;
  before the \<open>select\<close> that sends; before the deferred \<open>wg.Done()\<close>; returned;
  panicked; or stopped inside \<open>rand.Read\<close> by a fatal error of the runtime.  \<open>randBuf\<close> is
  overwritten as a whole by every successful read and read only after one, so it carries
  nothing from one iteration to the next and is not part of the state.

  What a call of \<open>rand.Read\<close> does when the random source fails is decided by the library
  and not by this program, and the sources name no version of Go.  Up to Go 1.23 the call
  returns a non-nil error; from Go 1.24 on it never returns one and ends the process with
  a fatal error instead.  The model has both outcomes, next to the successful read.
\<close>

datatype rand_result = RandErr | RandOk "byte list" | RandFatal

datatype worker_pc =
  WTop | WRand | WCount Identity | WPublish Identity | WReturn | WDone | WPanic go_panic | WFatal

text \<open>
  \<open>main\<close> is before \<open>validateInputs\<close>; in the spawn loop with counter \<open>i\<close>; before the
  receive; before \<open>atomic.StoreUint32\<close>; in \<open>wg.Wait()\<close>; past it, holding the identity it
  goes on to display and save; or has left with \<open>os.Exit(1)\<close> after printing the error.
\<close>

datatype main_pc =
  MStart | MSpawn nat | MRecv | MStore Identity | MWait Identity | MDone Identity | MExit string

record state =
  prefix :: "byte list"
  postfix :: "byte list"
  workers :: int
  prefixNibbles :: "byte list"
  postfixNibbles :: "byte list"
  totalAttempts :: "64 word"
  found :: "32 word"
  resultChan :: "Identity list"
  wg :: int
  at_main :: main_pc
  goroutines :: "worker_pc list"

text \<open>The state after \<open>flag.Parse()\<close>: the three flags as given, every other global zero.\<close>

definition init :: "byte list \<Rightarrow> byte list \<Rightarrow> int \<Rightarrow> state" where
  "init pre post n =
     \<lparr>prefix = pre, postfix = post, workers = n, prefixNibbles = [], postfixNibbles = [],
      totalAttempts = 0, found = 0, resultChan = [], wg = 0, at_main = MStart,
      goroutines = []\<rparr>"

text \<open>
  One step of \<open>main\<close>.  A receive from the empty channel and a \<open>wg.Wait()\<close> on a non-zero
  counter block: the state stays as it is.
\<close>

definition main_step :: "state \<Rightarrow> state" where
  "main_step s =
     (case at_main s of
        MStart \<Rightarrow>
          (case validateInputs (prefix s) (postfix s) (workers s) of
             Some err \<Rightarrow> s\<lparr>at_main := MExit err\<rparr>
           | None \<Rightarrow>
               (let s = s\<lparr>prefix := strings_ToLower (prefix s)\<rparr>;
                    s = s\<lparr>postfix := strings_ToLower (postfix s)\<rparr>;
                    s = (if prefix s \<noteq> [] then s\<lparr>prefixNibbles := hexToNibbles (prefix s)\<rparr>
                         else s);
                    s = (if postfix s \<noteq> [] then s\<lparr>postfixNibbles := hexToNibbles (postfix s)\<rparr>
                         else s)
                in s\<lparr>at_main := MSpawn 0\<rparr>))
      | MSpawn i \<Rightarrow>
          if int i < workers s
          then s\<lparr>wg := wg s + 1, goroutines := goroutines s @ [WTop], at_main := MSpawn (i + 1)\<rparr>
          else s\<lparr>at_main := MRecv\<rparr>
      | MRecv \<Rightarrow>
          (case resultChan s of
             [] \<Rightarrow> s
           | identity # rest \<Rightarrow> s\<lparr>resultChan := rest, at_main := MStore identity\<rparr>)
      | MStore identity \<Rightarrow> s\<lparr>found := 1, at_main := MWait identity\<rparr>
      | MWait identity \<Rightarrow> if wg s = 0 then s\<lparr>at_main := MDone identity\<rparr> else s
      | MDone identity \<Rightarrow> s
      | MExit err \<Rightarrow> s)"

definition goto :: "nat \<Rightarrow> worker_pc \<Rightarrow> state \<Rightarrow> state" where
  "goto i pc s = s\<lparr>goroutines := (goroutines s)[i := pc]\<rparr>"

text \<open>
  One step of worker \<open>i\<close>; \<open>r\<close> is what \<open>rand.Read\<close> returns if the step is the read.  A
  successful read fills the whole buffer, so only a result of 64 bytes is one.
\<close>

definition worker :: "primitives \<Rightarrow> nat \<Rightarrow> rand_result \<Rightarrow> state \<Rightarrow> state" where
  "worker P i r s =
     (if i < length (goroutines s) then
        (case goroutines s ! i of
           WTop \<Rightarrow> if found s = 1 then goto i WReturn s else goto i WRand s
         | WRand \<Rightarrow>
             (case r of
                RandErr \<Rightarrow> goto i WTop s
              | RandOk randBuf \<Rightarrow>
                  if length randBuf = 64 then goto i (WCount (newIdentity P randBuf)) s else s
              | RandFatal \<Rightarrow> goto i WFatal s)
         | WCount identity \<Rightarrow>
             (let s = s\<lparr>totalAttempts := totalAttempts s + 1\<rparr> in
              case matchesPattern (prefixNibbles s) (postfixNibbles s) (Address identity) of
                Inl e \<Rightarrow> goto i (WPanic e) s
              | Inr True \<Rightarrow> goto i (WPublish identity) s
              | Inr False \<Rightarrow> goto i WTop s)
         | WPublish identity \<Rightarrow>
             if length (resultChan s) < 1
             then goto i WReturn (s\<lparr>resultChan := resultChan s @ [identity]\<rparr>)
             else goto i WReturn s
         | WReturn \<Rightarrow> goto i WDone (s\<lparr>wg := wg s - 1\<rparr>)
         | WDone \<Rightarrow> s
         | WPanic e \<Rightarrow> s
         | WFatal \<Rightarrow> s)
      else s)"

datatype event = Main | Worker nat rand_result

text \<open>A panic in any goroutine ends the process, and so does a fatal error of the runtime.\<close>

definition panicked :: "state \<Rightarrow> bool" where
  "panicked s = list_ex (\<lambda>pc. case pc of WPanic e \<Rightarrow> True | _ \<Rightarrow> False) (goroutines s)"

definition crashed :: "state \<Rightarrow> bool" where
  "crashed s =
     list_ex (\<lambda>pc. case pc of WPanic e \<Rightarrow> True | WFatal \<Rightarrow> True | _ \<Rightarrow> False) (goroutines s)"

definition step :: "primitives \<Rightarrow> event \<Rightarrow> state \<Rightarrow> state" where
  "step P e s =
     (if crashed s then s
      else case e of Main \<Rightarrow> main_step s | Worker i r \<Rightarrow> worker P i r s)"

fun run :: "primitives \<Rightarrow> event list \<Rightarrow> state \<Rightarrow> state" where
  "run P [] s = s"
| "run P (e # es) s = run P es (step P e s)"

text \<open>An event completes an iteration when it is the counting step of a worker.\<close>

definition completes :: "event \<Rightarrow> state \<Rightarrow> bool" where
  "completes e s =
     (case e of
        Main \<Rightarrow> False
      | Worker i r \<Rightarrow>
          \<not> crashed s \<and> i < length (goroutines s) \<and>
          (case goroutines s ! i of WCount identity \<Rightarrow> True | _ \<Rightarrow> False))"

fun completed :: "primitives \<Rightarrow> event list \<Rightarrow> state \<Rightarrow> nat" where
  "completed P [] s = 0"
| "completed P (e # es) s = (if completes e s then 1 else 0) + completed P es (step P e s)"

text \<open>An event is an accepted send when a worker at its \<open>select\<close> finds room in the channel.\<close>

definition accepts :: "event \<Rightarrow> state \<Rightarrow> bool" where
  "accepts e s =
     (case e of
        Main \<Rightarrow> False
      | Worker i r \<Rightarrow>
          \<not> crashed s \<and> i < length (goroutines s) \<and> length (resultChan s) < 1 \<and>
          (case goroutines s ! i of WPublish identity \<Rightarrow> True | _ \<Rightarrow> False))"

fun accepted :: "primitives \<Rightarrow> event list \<Rightarrow> state \<Rightarrow> nat" where
  "accepted P [] s = 0"
| "accepted P (e # es) s = (if accepts e s then 1 else 0) + accepted P es (step P e s)"

section \<open>Saving the identity\<close>

text \<open>
  The file system maps a path to the contents of the file there.  Whether a call of
  \<open>os.Create\<close> or \<open>Write\<close> succeeds is decided outside the program: the outcomes of the
  calls are an argument.  A failed \<open>Write\<close> may have written some first bytes.
\<close>

type_synonym filesystem = "string \<Rightarrow> byte list option"

datatype write_outcome = WriteOk | WriteErr nat

datatype io_error = CreateError | WriteError

record io_outcomes =
  create_file :: bool
  write_private :: write_outcome
  write_seed :: write_outcome
  create_infoFile :: bool
  write_info :: "write_outcome list"

text \<open>The base-64 and base-32 encoders of the Go library are parameters.\<close>

record encoders =
  base64_StdEncoding :: "byte list \<Rightarrow> string"
  base32_StdEncoding :: "byte list \<Rightarrow> string"

definition hextable :: string where
  "hextable = ''0123456789abcdef''"

definition hex_EncodeToString :: "byte list \<Rightarrow> string" where
  "hex_EncodeToString src =
     concat (map (\<lambda>v. [hextable ! unat (drop_bit 4 v), hextable ! unat (v AND 0x0F)]) src)"

definition nl :: string where
  "nl = [CHR 0x0A]"

text \<open>What the calls of \<open>Fprintf\<close> and \<open>Fprintln\<close> on the info file write, one string each.\<close>

definition info_text :: "encoders \<Rightarrow> Identity \<Rightarrow> string list" where
  "info_text E identity =
     (let privKey = zero_array 64;
          privKey = copy_into privKey 0 32 (X25519Private identity);
          privKey = copy_into privKey 32 64 (Ed25519Seed identity);
          b64 = base64_StdEncoding E privKey;
          b32 = base32_StdEncoding E privKey
      in [''LXMF Vanity Address Identity'' @ nl,
          ''============================'' @ nl @ nl,
          ''Address (LXMF): '' @ hex_EncodeToString (Address identity) @ nl,
          ''Identity Hash:  '' @ hex_EncodeToString (Hash identity) @ nl @ nl,
          ''Public Key (X25519 + Ed25519):'' @ nl,
          ''  X25519 Public:  '' @ hex_EncodeToString (X25519Public identity) @ nl,
          ''  Ed25519 Public: '' @ hex_EncodeToString (Ed25519Public identity) @ nl @ nl,
          ''Private Key (X25519 + Ed25519):'' @ nl,
          ''  X25519 Private: '' @ hex_EncodeToString (X25519Private identity) @ nl,
          ''  Ed25519 Seed:   '' @ hex_EncodeToString (Ed25519Seed identity) @ nl,
          nl,
          ''--- Import formats ---'' @ nl,
          ''Base64 (MeshChat import string):'' @ nl @ b64 @ nl,
          ''Base32 (Sideband import string):'' @ nl @ b32 @ nl])"

text \<open>The bytes that reach a file from one \<open>Write\<close>.\<close>

definition written :: "write_outcome \<Rightarrow> byte list \<Rightarrow> byte list" where
  "written out p = (case out of WriteOk \<Rightarrow> p | WriteErr n \<Rightarrow> take n p)"

text \<open>
  The info file: the results of \<open>Fprintf\<close> are discarded, so every call is made; a call
  without a listed outcome succeeds.
\<close>

fun write_all :: "write_outcome list \<Rightarrow> string list \<Rightarrow> byte list" where
  "write_all outs [] = []"
| "write_all [] (t # ts) = bytes_of t @ write_all [] ts"
| "write_all (out # outs) (t # ts) = written out (bytes_of t) @ write_all outs ts"

text \<open>\<open>saveIdentity\<close>: the error it returns and the file system it leaves.\<close>

definition saveIdentity ::
  "encoders \<Rightarrow> io_outcomes \<Rightarrow> Identity \<Rightarrow> string \<Rightarrow> filesystem \<Rightarrow> io_error option \<times> filesystem"
where
  "saveIdentity E io identity path fs =
     (if \<not> create_file io then (Some CreateError, fs)
      else
        let fs = fs(path \<mapsto> []);
            file = written (write_private io) (X25519Private identity);
            fs = fs(path \<mapsto> file)
        in
        if write_private io \<noteq> WriteOk then (Some WriteError, fs)
        else
          let file = file @ written (write_seed io) (Ed25519Seed identity);
              fs = fs(path \<mapsto> file)
          in
          if write_seed io \<noteq> WriteOk then (Some WriteError, fs)
          else
            let infoPath = path @ ''.txt'' in
            if \<not> create_infoFile io then (Some CreateError, fs)
            else
              let fs = fs(infoPath \<mapsto> []);
                  fs = fs(infoPath \<mapsto> write_all (write_info io) (info_text E identity))
              in (None, fs))"

text \<open>
  The end of \<open>main\<close>, after \<open>wg.Wait()\<close>: the identity is saved unless \<open>--dry-run\<close> is
  given.
\<close>

definition main_save ::
  "encoders \<Rightarrow> io_outcomes \<Rightarrow> bool \<Rightarrow> Identity \<Rightarrow> string \<Rightarrow> filesystem \<Rightarrow> io_error option \<times> filesystem"
where
  "main_save E io dryRun identity outPath fs =
     (if \<not> dryRun then saveIdentity E io identity outPath fs else (None, fs))"

section \<open>Notions for stating the properties of the search\<close>

text \<open>The workers that have not returned: what \<open>wg\<close> counts.\<close>

definition pending :: "state \<Rightarrow> nat" where
  "pending s = length (filter (\<lambda>pc. pc \<noteq> WDone) (goroutines s))"

text \<open>The identity that \<open>main\<close> has received, once it has.\<close>

definition main_identity :: "state \<Rightarrow> Identity option" where
  "main_identity s =
     (case at_main s of
        MStore identity \<Rightarrow> Some identity
      | MWait identity \<Rightarrow> Some identity
      | MDone identity \<Rightarrow> Some identity
      | _ \<Rightarrow> None)"

text \<open>An event is a receive when \<open>main\<close> takes an identity from the channel.\<close>

definition receives :: "event \<Rightarrow> state \<Rightarrow> bool" where
  "receives e s =
     (case e of
        Main \<Rightarrow> \<not> crashed s \<and> at_main s = MRecv \<and> resultChan s \<noteq> []
      | Worker i r \<Rightarrow> False)"

fun received :: "primitives \<Rightarrow> event list \<Rightarrow> state \<Rightarrow> nat" where
  "received P [] s = 0"
| "received P (e # es) s = (if receives e s then 1 else 0) + received P es (step P e s)"

text \<open>
  The invariant of the search: \<open>wg\<close> counts the workers that have not returned, the
  channel holds at most one identity, and the workers that exist are those that \<open>main\<close>
  has spawned so far; once \<open>main\<close> is past \<open>wg.Wait()\<close>, all of them have returned.
\<close>

definition search_inv :: "state \<Rightarrow> bool" where
  "search_inv s \<longleftrightarrow>
     wg s = int (pending s) \<and>
     length (resultChan s) \<le> 1 \<and>
     (case at_main s of
        MStart \<Rightarrow> goroutines s = [] \<and> resultChan s = []
      | MSpawn i \<Rightarrow> length (goroutines s) = i \<and> int i \<le> workers s
      | MRecv \<Rightarrow> int (length (goroutines s)) = workers s
      | MStore identity \<Rightarrow> int (length (goroutines s)) = workers s
      | MWait identity \<Rightarrow> int (length (goroutines s)) = workers s
      | MDone identity \<Rightarrow>
          int (length (goroutines s)) = workers s \<and> (\<forall>pc\<in>set (goroutines s). pc = WDone)
      | MExit err \<Rightarrow> goroutines s = [])"

text \<open>
  At most how many steps of its own a worker needs to return once \<open>found\<close> is set,
  whatever it draws: from \<open>rand.Read\<close> a successful read leads to the count, to the
  \<open>select\<close> or the top of the loop, to the deferred \<open>wg.Done()\<close>, and out.
\<close>

definition steps_left :: "worker_pc \<Rightarrow> nat" where
  "steps_left pc =
     (case pc of
        WTop \<Rightarrow> 2 | WRand \<Rightarrow> 4 | WCount identity \<Rightarrow> 3 | WPublish identity \<Rightarrow> 2
      | WReturn \<Rightarrow> 1 | WDone \<Rightarrow> 0 | WPanic e \<Rightarrow> 0 | WFatal \<Rightarrow> 0)"

text \<open>
  The steps that a schedule gives to worker \<open>i\<close>; and the schedules in which the random
  source never fails fatally and every successful read fills the buffer.
\<close>

definition turns :: "nat \<Rightarrow> event list \<Rightarrow> nat" where
  "turns i sched = length (filter (\<lambda>e. case e of Main \<Rightarrow> False | Worker j r \<Rightarrow> j = i) sched)"

definition draw_ok :: "event \<Rightarrow> bool" where
  "draw_ok e =
     (case e of
        Main \<Rightarrow> True
      | Worker i r \<Rightarrow>
          (case r of RandErr \<Rightarrow> True | RandOk randBuf \<Rightarrow> length randBuf = 64 | RandFatal \<Rightarrow> False))"

definition draws_ok :: "event list \<Rightarrow> bool" where
  "draws_ok sched = list_all draw_ok sched"

text \<open>
  An event starts an attempt when it is a successful read of a worker: the iteration
  derives an identity from the bytes read and goes on to count it.  An attempt is in
  flight while its worker has derived the identity and not yet counted it.
\<close>

definition derives :: "event \<Rightarrow> state \<Rightarrow> bool" where
  "derives e s =
     (case e of
        Main \<Rightarrow> False
      | Worker i r \<Rightarrow>
          \<not> crashed s \<and> i < length (goroutines s) \<and> goroutines s ! i = WRand \<and>
          (case r of RandOk randBuf \<Rightarrow> length randBuf = 64 | _ \<Rightarrow> False))"

fun derived :: "primitives \<Rightarrow> event list \<Rightarrow> state \<Rightarrow> nat" where
  "derived P [] s = 0"
| "derived P (e # es) s = (if derives e s then 1 else 0) + derived P es (step P e s)"

definition in_flight :: "state \<Rightarrow> nat" where
  "in_flight s =
     length (filter (\<lambda>pc. case pc of WCount identity \<Rightarrow> True | _ \<Rightarrow> False) (goroutines s))"

text \<open>
  A second invariant: no goroutine has panicked, the nibble slices have at most 32
  entries, every address that is about to be matched has 16 bytes, and \<open>found\<close> is set once
  \<open>main\<close> has stored it.
\<close>

definition safe :: "state \<Rightarrow> bool" where
  "safe s \<longleftrightarrow>
     \<not> panicked s \<and>
     length (prefixNibbles s) \<le> 32 \<and> length (postfixNibbles s) \<le> 32 \<and>
     (\<forall>pc\<in>set (goroutines s).
        case pc of WCount identity \<Rightarrow> length (Address identity) = 16 | _ \<Rightarrow> True) \<and>
     (case at_main s of
        MWait identity \<Rightarrow> found s = 1 | MDone identity \<Rightarrow> found s = 1 | _ \<Rightarrow> True)"

text \<open>
  Where identities come from: an identity is made by a worker when it is what an
  iteration builds from some 64 random bytes, and matched when moreover \<open>matchesPattern\<close>
  returns true on its address.  The third invariant: every identity that a worker is
  about to count was made by a worker, and every identity that a worker is about to
  send, that is in the channel or that \<open>main\<close> holds was matched.
\<close>

definition made_by :: "primitives \<Rightarrow> Identity \<Rightarrow> bool" where
  "made_by P identity \<longleftrightarrow> (\<exists>randBuf. length randBuf = 64 \<and> identity = newIdentity P randBuf)"

definition matched :: "primitives \<Rightarrow> state \<Rightarrow> Identity \<Rightarrow> bool" where
  "matched P s identity \<longleftrightarrow>
     made_by P identity \<and>
     matchesPattern (prefixNibbles s) (postfixNibbles s) (Address identity) = Inr True"

definition provenance :: "primitives \<Rightarrow> state \<Rightarrow> bool" where
  "provenance P s \<longleftrightarrow>
     (\<forall>identity. WCount identity \<in> set (goroutines s) \<longrightarrow> made_by P identity) \<and>
     (\<forall>identity. WPublish identity \<in> set (goroutines s) \<longrightarrow> matched P s identity) \<and>
     (\<forall>identity\<in>set (resultChan s). matched P s identity) \<and>
     (\<forall>identity. main_identity s = Some identity \<longrightarrow> matched P s identity) \<and>
     (at_main s = MStart \<longrightarrow> goroutines s = [] \<and> resultChan s = [])"

section \<open>Concrete inputs\<close>

text \<open>Toy primitives for concrete evaluation: a ``digest'' that pads or cuts its input to 32 bytes
  after a marker byte, and key derivations that add a constant to every byte.\<close>

definition toy :: primitives where
  "toy = \<lparr>Sum256 = (\<lambda>m. take 32 (of_nat (length m) # m @ replicate 32 0)),
          ScalarBaseMult = (\<lambda>k. take 32 (map (\<lambda>b. b + 9) k @ replicate 32 0)),
          NewKeyFromSeed_Public = (\<lambda>s. take 32 (map (\<lambda>b. b + 1) s @ replicate 32 0))\<rparr>"

text \<open>An identity for concrete evaluation: two public keys, every other field zero.\<close>

definition id0 :: Identity where
  "id0 = zero_Identity\<lparr>X25519Public := replicate 32 1, Ed25519Public := replicate 32 2\<rparr>"

text \<open>An address that begins \<open>cafeabc7\<close> and ends \<open>be\<close>.\<close>

definition addr0 :: "byte list" where
  "addr0 = [0xCA, 0xFE, 0xAB, 0xC7, 0, 0, 0, 0, 0, 0, 0, 0, 0, 0, 0, 0xBE]"

text \<open>A state with one worker before \<open>rand.Read\<close>.\<close>

definition s_rand :: state where
  "s_rand = (init [12] [] 1)\<lparr>goroutines := [WRand]\<rparr>"

text \<open>
  With one worker and the prefix \<open>f\<close>: the three steps of \<open>main\<close> up to the receive, the
  state they lead to, and one iteration of the worker.  Under the toy primitives every
  address begins with the byte \<open>0x1a\<close>, so no address matches \<open>f\<close> and every address
  matches \<open>1\<close>.
\<close>

definition boot1 :: "event list" where
  "boot1 = [Main, Main, Main]"

definition spin :: "event list" where
  "spin = [Worker 0 RandErr, Worker 0 (RandOk (replicate 64 0)), Worker 0 RandErr]"

definition s_top :: state where
  "s_top = \<lparr>prefix = [102], postfix = [], workers = 1, prefixNibbles = [15], postfixNibbles = [],
      totalAttempts = 0, found = 0, resultChan = [], wg = 1, at_main = MRecv,
      goroutines = [WTop]\<rparr>"

definition s_rand1 :: state where
  "s_rand1 = run toy [Main, Main, Main, Worker 0 RandErr] (init (bytes_of ''f'') [] 1)"

text \<open>
  With two workers and the prefix \<open>1\<close>: both workers find a match; worker 0 sends, \<open>main\<close>
  receives, and only then worker 1 reaches its \<open>select\<close>.  \<open>finish\<close> lets \<open>main\<close> set the
  flag, both workers return, and \<open>main\<close> leave \<open>wg.Wait()\<close>.
\<close>

definition race :: "event list" where
  "race = [Main, Main, Main, Main,
           Worker 0 RandErr, Worker 0 (RandOk (replicate 64 1)), Worker 0 RandErr,
           Worker 1 RandErr, Worker 1 (RandOk (replicate 64 2)), Worker 1 RandErr,
           Worker 0 RandErr,
           Main,
           Worker 1 RandErr]"

definition finish :: "event list" where
  "finish = [Main, Worker 0 RandErr, Worker 1 RandErr, Main]"

text \<open>
  With the same inputs: worker 0 finds a match and sends it, worker 1 comes to its
  \<open>rand.Read\<close>, and \<open>main\<close> receives.  \<open>drain\<close> then gives each worker four steps in
  which every read succeeds.
\<close>

definition late :: "event list" where
  "late = [Main, Main, Main, Main,
           Worker 0 RandErr, Worker 0 (RandOk (replicate 64 1)), Worker 0 RandErr, Worker 0 RandErr,
           Worker 1 RandErr,
           Main]"

definition drain :: "event list" where
  "drain = [Worker 0 (RandOk (replicate 64 3)), Worker 1 (RandOk (replicate 64 2)),
            Worker 0 (RandOk (replicate 64 3)), Worker 1 (RandOk (replicate 64 2)),
            Worker 0 (RandOk (replicate 64 3)), Worker 1 (RandOk (replicate 64 2)),
            Worker 0 (RandOk (replicate 64 3)), Worker 1 (RandOk (replicate 64 2))]"

text \<open>An identity with both private halves set, encoders and I/O outcomes for saving it.\<close>

definition id1 :: Identity where
  "id1 = id0\<lparr>X25519Private := replicate 32 64, Ed25519Seed := replicate 32 7\<rparr>"

definition io_ok :: io_outcomes where
  "io_ok = \<lparr>create_file = True, write_private = WriteOk, write_seed = WriteOk,
            create_infoFile = True, write_info = []\<rparr>"

definition toy_encoders :: encoders where
  "toy_encoders = \<lparr>base64_StdEncoding = (\<lambda>b. ''b64''), base32_StdEncoding = (\<lambda>b. ''B32'')\<rparr>"

section \<open>Arrays and slices\<close>

lemma length_go_copy [simp]: "length (go_copy dst src) = length dst"
  by (simp add: go_copy_def Let_def)

lemma go_copy_same_length: "length src = length dst \<Longrightarrow> go_copy dst src = src"
  by (simp add: go_copy_def Let_def)

lemma length_slice: "hi \<le> length a \<Longrightarrow> length (slice a lo hi) = hi - lo"
  by (simp add: slice_def)

lemma slice_0 [simp]: "slice a 0 n = take n a"
  by (simp add: slice_def)

lemma length_zero_array [simp]: "length (zero_array n) = n"
  by (simp add: zero_array_def)

lemma length_copy_into: "hi \<le> length a \<Longrightarrow> lo \<le> hi \<Longrightarrow> length (copy_into a lo hi src) = length a"
  by (simp add: copy_into_def length_slice)

lemma copy_into_exact:
  "hi \<le> length a \<Longrightarrow> lo \<le> hi \<Longrightarrow> length src = hi - lo \<Longrightarrow>
     copy_into a lo hi src = take lo a @ src @ drop hi a"
  by (simp add: copy_into_def go_copy_same_length length_slice)

lemma copy_into_two:
  assumes "length x = m" and "length y = n"
  shows "copy_into (copy_into (zero_array (m + n)) 0 m x) m (m + n) y = x @ y"
proof -
  have a: "copy_into (zero_array (m + n)) 0 m x = x @ replicate n 0"
    using assms by (simp add: copy_into_exact zero_array_def)
  show ?thesis
    unfolding a using assms by (simp add: copy_into_exact)
qed

lemma publicKey_eq:
  "length x = 32 \<Longrightarrow> length y = 32 \<Longrightarrow>
     copy_into (copy_into (zero_array 64) 0 32 x) 32 64 y = x @ y"
  using copy_into_two [of x 32 y 32] by simp

lemma addrHashMaterial_eq:
  "length x = 10 \<Longrightarrow> length y = 16 \<Longrightarrow>
     copy_into (copy_into (zero_array 26) 0 10 x) 10 26 y = x @ y"
  using copy_into_two [of x 10 y 16] by simp

section \<open>Clamping\<close>

lemma lt8_cases:
  "(b::nat) < 8 \<Longrightarrow> b = 0 \<or> b = 1 \<or> b = 2 \<or> b = 3 \<or> b = 4 \<or> b = 5 \<or> b = 6 \<or> b = 7"
  by arith

lemma bit_and_248: "b < 8 \<Longrightarrow> bit ((x::byte) AND 248) b = (bit x b \<and> 3 \<le> b)"
  by (drule lt8_cases) (auto simp add: bit_and_iff)

lemma bit_and_127: "b < 8 \<Longrightarrow> bit ((x::byte) AND 127) b = (bit x b \<and> b \<noteq> 7)"
  by (drule lt8_cases) (auto simp add: bit_and_iff)

lemma bit_or_64: "b < 8 \<Longrightarrow> bit ((x::byte) OR 64) b = (bit x b \<or> b = 6)"
  by (drule lt8_cases) (auto simp add: bit_or_iff)

lemma length_clampX25519 [simp]: "length (clampX25519 k) = length k"
  by (simp add: clampX25519_def Let_def)

lemma clampX25519_nth:
  assumes "length k = 32" and "i < 32"
  shows "clampX25519 k ! i =
           (if i = 0 then (k ! 0) AND 248
            else if i = 31 then ((k ! 31) AND 127) OR 64
            else k ! i)"
  using assms by (simp add: clampX25519_def Let_def nth_list_update)

lemma clampX25519_bit:
  assumes "length k = 32" and "i < 32" and "b < 8"
  shows "bit (clampX25519 k ! i) b =
           (if i = 0 \<and> b < 3 then False
            else if i = 31 \<and> b = 7 then False
            else if i = 31 \<and> b = 6 then True
            else bit (k ! i) b)"
  using assms by (auto simp add: clampX25519_nth bit_and_248 bit_and_127 bit_or_64)

lemma X25519Private_generateKeyPairs:
  "length randBuf = 64 \<Longrightarrow>
     X25519Private (generateKeyPairs P randBuf) = clampX25519 (take 32 randBuf)"
  by (simp add: generateKeyPairs_def generateEd25519Public_def zero_Identity_def Let_def
      go_copy_same_length)

lemma X25519Private_newIdentity:
  "length randBuf = 64 \<Longrightarrow>
     X25519Private (newIdentity P randBuf) = clampX25519 (take 32 randBuf)"
  by (simp add: newIdentity_def computeHashes_def Let_def X25519Private_generateKeyPairs)

text \<open>
  Claim C4.  For every 32-byte input, \<open>clampX25519\<close> returns 32 bytes in which bits 0-2 of
  byte 0 are cleared, bit 7 of byte 31 is cleared and bit 6 of byte 31 is set, and every
  other bit is the bit of the input.  The exchange private key of the identity that a
  worker builds from any 64 random bytes is the clamped first half of those bytes, so it
  has the three bit conditions.
\<close>

theorem clampX25519_correct:
  assumes "length k = 32" and "length randBuf = 64"
  shows "length (clampX25519 k) = 32 \<and>
         \<not> bit (clampX25519 k ! 0) 0 \<and> \<not> bit (clampX25519 k ! 0) 1 \<and>
         \<not> bit (clampX25519 k ! 0) 2 \<and>
         \<not> bit (clampX25519 k ! 31) 7 \<and> bit (clampX25519 k ! 31) 6 \<and>
         (\<forall>i<32. \<forall>b<8.
            \<not> (i = 0 \<and> b < 3) \<and> \<not> (i = 31 \<and> (b = 6 \<or> b = 7)) \<longrightarrow>
            bit (clampX25519 k ! i) b = bit (k ! i) b) \<and>
         X25519Private (newIdentity P randBuf) = clampX25519 (take 32 randBuf) \<and>
         \<not> bit (X25519Private (newIdentity P randBuf) ! 0) 0 \<and>
         \<not> bit (X25519Private (newIdentity P randBuf) ! 0) 1 \<and>
         \<not> bit (X25519Private (newIdentity P randBuf) ! 0) 2 \<and>
         \<not> bit (X25519Private (newIdentity P randBuf) ! 31) 7 \<and>
         bit (X25519Private (newIdentity P randBuf) ! 31) 6"
proof -
  have len: "length (take 32 randBuf) = 32"
    using assms(2) by simp
  have a: "\<not> bit (clampX25519 k ! 0) 0" "\<not> bit (clampX25519 k ! 0) 1"
    "\<not> bit (clampX25519 k ! 0) 2" "\<not> bit (clampX25519 k ! 31) 7" "bit (clampX25519 k ! 31) 6"
    using assms(1) by (simp_all add: clampX25519_bit)
  have b: "\<forall>i<32. \<forall>b<8.
            \<not> (i = 0 \<and> b < 3) \<and> \<not> (i = 31 \<and> (b = 6 \<or> b = 7)) \<longrightarrow>
            bit (clampX25519 k ! i) b = bit (k ! i) b"
    using assms(1) by (auto simp add: clampX25519_bit)
  have c: "\<not> bit (clampX25519 (take 32 randBuf) ! 0) 0"
    "\<not> bit (clampX25519 (take 32 randBuf) ! 0) 1"
    "\<not> bit (clampX25519 (take 32 randBuf) ! 0) 2"
    "\<not> bit (clampX25519 (take 32 randBuf) ! 31) 7"
    "bit (clampX25519 (take 32 randBuf) ! 31) 6"
    using len by (simp_all add: clampX25519_bit)
  show ?thesis
    using assms a b c by (simp add: X25519Private_newIdentity)
qed

theorem clampX25519_correct_witness:
  "clampX25519 (replicate 32 255) = 248 # replicate 30 255 @ [127] \<and>
   clampX25519 (replicate 32 0) = replicate 31 0 @ [64] \<and>
   \<not> bit (clampX25519 (replicate 32 255) ! 0) 2 \<and>
   bit (clampX25519 (replicate 32 0) ! 31) 6 \<and>
   X25519Private (newIdentity toy (replicate 64 255)) = 248 # replicate 30 255 @ [127]"
proof -
  have k: "clampX25519 (replicate 32 255) = 248 # replicate 30 255 @ [127]"
    by (simp add: clampX25519_def Let_def numeral_eq_Suc)
  have z: "clampX25519 (replicate 32 0) = replicate 31 0 @ [64]"
    by (simp add: clampX25519_def Let_def numeral_eq_Suc)
  have t: "take 32 (replicate 64 (255::byte)) = replicate 32 255"
    by simp
  from clampX25519_correct [of "replicate 32 255" "replicate 64 255" toy]
    clampX25519_correct [of "replicate 32 0" "replicate 64 255" toy]
  show ?thesis
    by (simp add: k z t)
qed

section \<open>The derivation chain\<close>

lemma primitives_sized_toy: "primitives_sized toy"
  by (auto simp add: primitives_sized_def toy_def min_def)

lemma Sum256_sized: "primitives_sized P \<Longrightarrow> length (Sum256 P m) = 32"
  by (simp add: primitives_sized_def)

lemma Sum256_toy: "Sum256 toy m = take 32 (of_nat (length m) # m @ replicate 32 0)"
  by (simp add: toy_def)

lemma nameHash_eq: "nameHash P = take 10 (Sum256 P (bytes_of ''lxmf.delivery''))"
  by (simp add: nameHash_def Let_def)

lemma length_nameHash: "primitives_sized P \<Longrightarrow> length (nameHash P) = 10"
  by (simp add: nameHash_eq Sum256_sized)

lemma computeHashes_Hash:
  assumes "primitives_sized P" and "Identity_sized identity"
  shows "Hash (computeHashes P nh identity) =
           take 16 (Sum256 P (X25519Public identity @ Ed25519Public identity))"
  using assms
  by (simp add: computeHashes_def Let_def Identity_sized_def publicKey_eq go_copy_same_length
      Sum256_sized)

lemma computeHashes_Address:
  assumes "primitives_sized P" and "Identity_sized identity" and "length nh = 10"
  shows "Address (computeHashes P nh identity) =
           take 16 (Sum256 P (nh @ Hash (computeHashes P nh identity)))"
  using assms
  by (simp add: computeHashes_def Let_def Identity_sized_def publicKey_eq go_copy_same_length
      Sum256_sized addrHashMaterial_eq)

lemma computeHashes_keys:
  "X25519Private (computeHashes P nh identity) = X25519Private identity"
  "X25519Public (computeHashes P nh identity) = X25519Public identity"
  "Ed25519Seed (computeHashes P nh identity) = Ed25519Seed identity"
  "Ed25519Public (computeHashes P nh identity) = Ed25519Public identity"
  by (simp_all add: computeHashes_def Let_def)

lemma generateKeyPairs_fields:
  assumes "length randBuf = 64"
  shows "X25519Private (generateKeyPairs P randBuf) = clampX25519 (take 32 randBuf)"
    and "Ed25519Seed (generateKeyPairs P randBuf) = drop 32 randBuf"
    and "X25519Public (generateKeyPairs P randBuf) = ScalarBaseMult P (clampX25519 (take 32 randBuf))"
    and "Hash (generateKeyPairs P randBuf) = zero_array 16"
    and "Address (generateKeyPairs P randBuf) = zero_array 16"
  using assms
  by (simp_all add: generateKeyPairs_def generateEd25519Public_def zero_Identity_def Let_def
      go_copy_same_length slice_def)

lemma generateKeyPairs_Ed25519Public:
  assumes "length randBuf = 64" and "primitives_sized P"
  shows "Ed25519Public (generateKeyPairs P randBuf) = NewKeyFromSeed_Public P (drop 32 randBuf)"
  using assms
  by (simp add: generateKeyPairs_def generateEd25519Public_def zero_Identity_def Let_def
      go_copy_same_length slice_def primitives_sized_def)

lemma Identity_sized_generateKeyPairs:
  assumes "length randBuf = 64" and "primitives_sized P"
  shows "Identity_sized (generateKeyPairs P randBuf)"
  using assms
  by (simp add: Identity_sized_def generateKeyPairs_fields generateKeyPairs_Ed25519Public)
     (simp add: primitives_sized_def)

lemma Identity_sized_newIdentity:
  assumes "primitives_sized P" and "length randBuf = 64"
  shows "Identity_sized (newIdentity P randBuf)"
  using Identity_sized_generateKeyPairs [OF assms(2) assms(1)]
  by (simp add: newIdentity_def computeHashes_def Let_def Identity_sized_def)

lemma length_Address_newIdentity: "length (Address (newIdentity P randBuf)) = 16"
  by (simp add: newIdentity_def computeHashes_def generateKeyPairs_def generateEd25519Public_def
      zero_Identity_def Let_def)

text \<open>
  Claim C1.  With digests of 32 bytes and an identity whose arrays have the sizes of the
  type: the name hash is the first 10 bytes of the digest of \<open>lxmf.delivery\<close>; the
  fingerprint written to \<open>Hash\<close> is the first 16 bytes of the digest of the 64 bytes
  \<open>X25519Public @ Ed25519Public\<close>, in that order; the address is the first 16 bytes of the
  digest of the 26 bytes made of the name hash followed by the fingerprint.  The identity
  that a worker builds from 64 random bytes has its \<open>Hash\<close> and \<open>Address\<close> in this
  relation to its own public keys.
\<close>

theorem address_derivation_chain:
  assumes "primitives_sized P" and "Identity_sized identity" and "length randBuf = 64"
  shows "nameHash P = take 10 (Sum256 P (bytes_of ''lxmf.delivery'')) \<and>
         length (nameHash P) = 10 \<and>
         length (X25519Public identity @ Ed25519Public identity) = 64 \<and>
         Hash (computeHashes P (nameHash P) identity) =
           take 16 (Sum256 P (X25519Public identity @ Ed25519Public identity)) \<and>
         length (Hash (computeHashes P (nameHash P) identity)) = 16 \<and>
         length (nameHash P @ Hash (computeHashes P (nameHash P) identity)) = 26 \<and>
         Address (computeHashes P (nameHash P) identity) =
           take 16 (Sum256 P (nameHash P @ Hash (computeHashes P (nameHash P) identity))) \<and>
         length (Address (computeHashes P (nameHash P) identity)) = 16 \<and>
         Hash (newIdentity P randBuf) =
           take 16 (Sum256 P (X25519Public (newIdentity P randBuf) @
                              Ed25519Public (newIdentity P randBuf))) \<and>
         Address (newIdentity P randBuf) =
           take 16 (Sum256 P (take 10 (Sum256 P (bytes_of ''lxmf.delivery'')) @
                              Hash (newIdentity P randBuf)))"
proof -
  have n: "length (nameHash P) = 10"
    using assms(1) by (rule length_nameHash)
  have h: "Hash (computeHashes P (nameHash P) identity) =
           take 16 (Sum256 P (X25519Public identity @ Ed25519Public identity))"
    using assms(1,2) by (rule computeHashes_Hash)
  have a: "Address (computeHashes P (nameHash P) identity) =
           take 16 (Sum256 P (nameHash P @ Hash (computeHashes P (nameHash P) identity)))"
    using assms(1,2) n by (rule computeHashes_Address)
  have g: "Identity_sized (generateKeyPairs P randBuf)"
    using assms(3,1) by (rule Identity_sized_generateKeyPairs)
  have h': "Hash (newIdentity P randBuf) =
           take 16 (Sum256 P (X25519Public (newIdentity P randBuf) @
                              Ed25519Public (newIdentity P randBuf)))"
    unfolding newIdentity_def using computeHashes_Hash [OF assms(1) g]
    by (simp add: computeHashes_keys)
  have a': "Address (newIdentity P randBuf) =
           take 16 (Sum256 P (take 10 (Sum256 P (bytes_of ''lxmf.delivery'')) @
                              Hash (newIdentity P randBuf)))"
    unfolding newIdentity_def using computeHashes_Address [OF assms(1) g n]
    by (simp add: nameHash_eq)
  have l: "length (Hash (computeHashes P (nameHash P) identity)) = 16"
    "length (Address (computeHashes P (nameHash P) identity)) = 16"
    using assms(2) by (simp_all add: computeHashes_def Let_def Identity_sized_def)
  have k: "length (X25519Public identity @ Ed25519Public identity) = 64"
    using assms(2) by (simp add: Identity_sized_def)
  show ?thesis
    using n h a h' a' l k by (simp add: nameHash_eq)
qed

theorem address_derivation_chain_witness:
  "primitives_sized toy \<and> Identity_sized id0 \<and>
   length (replicate 64 (7::byte)) = 64 \<and>
   nameHash toy = [13, 108, 120, 109, 102, 46, 100, 101, 108, 105] \<and>
   Hash (computeHashes toy (nameHash toy) id0) = 64 # replicate 15 1 \<and>
   Address (computeHashes toy (nameHash toy) id0) =
     [26, 13, 108, 120, 109, 102, 46, 100, 101, 108, 105, 64, 1, 1, 1, 1]"
proof -
  have s: "Identity_sized id0"
    by (simp add: id0_def Identity_sized_def zero_Identity_def)
  have l: "length (replicate 64 (7::byte)) = 64"
    by simp
  have p: "X25519Public id0 = replicate 32 1" "Ed25519Public id0 = replicate 32 2"
    by (simp_all add: id0_def)
  note t = address_derivation_chain [OF primitives_sized_toy s l]
  have n: "nameHash toy = [13, 108, 120, 109, 102, 46, 100, 101, 108, 105]"
    by (simp add: nameHash_eq Sum256_toy bytes_of_def)
  from t have "Hash (computeHashes toy (nameHash toy) id0) =
           take 16 (Sum256 toy (X25519Public id0 @ Ed25519Public id0))"
    by blast
  then have h: "Hash (computeHashes toy (nameHash toy) id0) = 64 # replicate 15 1"
    by (simp add: p Sum256_toy numeral_eq_Suc)
  from t have "Address (computeHashes toy (nameHash toy) id0) =
           take 16 (Sum256 toy (nameHash toy @ Hash (computeHashes toy (nameHash toy) id0)))"
    by blast
  then have a: "Address (computeHashes toy (nameHash toy) id0) =
     [26, 13, 108, 120, 109, 102, 46, 100, 101, 108, 105, 64, 1, 1, 1, 1]"
    unfolding h by (simp add: n Sum256_toy numeral_eq_Suc)
  show ?thesis
    using primitives_sized_toy s n h a by simp
qed

section \<open>Parsing the pattern\<close>

declare hexToNibbles_loop.simps [simp del]

lemma hexToNibbles_loop_length:
  "length (hexToNibbles_loop s nibbles i) = length nibbles"
proof (induction s nibbles i rule: hexToNibbles_loop.induct)
  case (1 s nibbles i)
  show ?case
  proof (cases "i < length s")
    case True
    with "1.IH" show ?thesis
      by (subst hexToNibbles_loop.simps) (simp add: Let_def)
  next
    case False
    then show ?thesis
      by (subst hexToNibbles_loop.simps) simp
  qed
qed

lemma hexToNibbles_loop_nth:
  "length nibbles = length s \<Longrightarrow> j < length s \<Longrightarrow>
     hexToNibbles_loop s nibbles i ! j =
       (if i \<le> j then lower_value (nibbles ! j) (s ! j) else nibbles ! j)"
proof (induction s nibbles i rule: hexToNibbles_loop.induct)
  case (1 s nibbles i)
  show ?case
  proof (cases "i < length s")
    case True
    let ?n = "(if ch CHR ''0'' \<le> s ! i \<and> s ! i \<le> ch CHR ''9'' then nibbles[i := s ! i - ch CHR ''0'']
                else if ch CHR ''a'' \<le> s ! i \<and> s ! i \<le> ch CHR ''f'' then nibbles[i := s ! i - ch CHR ''a'' + 10]
                else nibbles)"
    have len: "length ?n = length s"
      using "1.prems" by simp
    have unf: "hexToNibbles_loop s nibbles i = hexToNibbles_loop s ?n (i + 1)"
      using True by (subst hexToNibbles_loop.simps) (simp add: Let_def)
    have ih: "hexToNibbles_loop s ?n (i + 1) ! j =
                (if i + 1 \<le> j then lower_value (?n ! j) (s ! j) else ?n ! j)"
      using "1.IH" [OF True refl refl len "1.prems"(2)] .
    show ?thesis
    proof (cases "j = i")
      case True
      then show ?thesis
        unfolding unf ih using "1.prems" by (simp add: lower_value_def)
    next
      case False
      then have "?n ! j = nibbles ! j"
        by simp
      with False show ?thesis
        unfolding unf ih by auto
    qed
  next
    case False
    then show ?thesis
      using "1.prems" by (subst hexToNibbles_loop.simps) simp
  qed
qed

lemma hexToNibbles_nth:
  "i < length s \<Longrightarrow> hexToNibbles s ! i = lower_value 0 (s ! i)"
  by (simp add: hexToNibbles_def hexToNibbles_loop_nth)

lemma length_hexToNibbles: "length (hexToNibbles s) = length s"
  by (simp add: hexToNibbles_def hexToNibbles_loop_length)

lemma lower_value_lt16: "lower_value 0 c < 16"
  unfolding lower_value_def by simp unat_arith

lemma isHex_iff: "isHex s \<longleftrightarrow> (\<forall>c\<in>set s. hex_digit c)"
  by (induction s) (auto simp add: hex_digit_def)

lemma lower_value_ToLower:
  assumes "hex_digit c"
  shows "lower_value 0 (if ch CHR ''A'' \<le> c \<and> c \<le> ch CHR ''Z'' then c + 32 else c) = hex_value c"
proof -
  consider (d) "48 \<le> c" "c \<le> 57" | (l) "97 \<le> c" "c \<le> 102" | (u) "65 \<le> c" "c \<le> 70"
    using assms by (auto simp add: hex_digit_def)
  then show ?thesis
  proof cases
    case d
    then have "\<not> 65 \<le> c" by unat_arith
    with d show ?thesis by (simp add: lower_value_def hex_value_def)
  next
    case l
    then have "\<not> c \<le> 90" "\<not> c \<le> 57" by unat_arith+
    with l show ?thesis by (simp add: lower_value_def hex_value_def)
  next
    case u
    then have a: "c \<le> 90" "\<not> c \<le> 57" "\<not> 97 \<le> c"
      by unat_arith+
    from u have b: "\<not> c + 32 \<le> 57" "97 \<le> c + 32" "c + 32 \<le> 102"
      by (simp_all add: word_le_nat_alt unat_word_ariths)
    from u a b show ?thesis by (simp add: lower_value_def hex_value_def)
  qed
qed

lemma upper_value_0:
  assumes "ch CHR ''A'' \<le> c \<and> c \<le> ch CHR ''F''"
  shows "lower_value 0 c = 0"
proof -
  from assms have "65 \<le> c" "c \<le> 70"
    by simp_all
  then have "\<not> c \<le> 57" "\<not> 97 \<le> c"
    by unat_arith+
  then show ?thesis by (simp add: lower_value_def)
qed

lemma hexToNibbles_f: "hexToNibbles [102] = [15]" "hexToNibbles [49] = [1]"
  by (simp_all add: hexToNibbles_def hexToNibbles_loop.simps)

lemma prefixNibbles_main_step:
  assumes "validateInputs pre post n = None"
  shows "prefixNibbles (main_step (init pre post n)) = hexToNibbles (strings_ToLower pre)"
    and "postfixNibbles (main_step (init pre post n)) = hexToNibbles (strings_ToLower post)"
    and "at_main (main_step (init pre post n)) = MSpawn 0"
  using assms
  by (auto simp add: main_step_def init_def Let_def strings_ToLower_def length_0_conv
      hexToNibbles_def [of "[]"] hexToNibbles_loop.simps [of "[]"])

text \<open>
  Claim C10.  \<open>hexToNibbles\<close> returns as many nibbles as the string has bytes; a digit or
  a lower-case \<open>a\<close>-\<open>f\<close> gives its value, below 16, and every other byte gives 0 with no
  error, an upper-case \<open>A\<close>-\<open>F\<close> among them.  On a string that \<open>isHex\<close> accepts, lowering
  the case first makes every nibble the value of its digit, and \<open>main\<close> lowers the case of
  both flags before it parses them.
\<close>

theorem hexToNibbles_correct:
  "length (hexToNibbles s) = length s \<and>
   (\<forall>i<length s.
      hexToNibbles s ! i =
        (if ch CHR ''0'' \<le> s ! i \<and> s ! i \<le> ch CHR ''9'' then s ! i - ch CHR ''0''
         else if ch CHR ''a'' \<le> s ! i \<and> s ! i \<le> ch CHR ''f'' then s ! i - ch CHR ''a'' + 10
         else 0) \<and>
      hexToNibbles s ! i < 16 \<and>
      (ch CHR ''A'' \<le> s ! i \<and> s ! i \<le> ch CHR ''F'' \<longrightarrow> hexToNibbles s ! i = 0) \<and>
      (isHex s \<longrightarrow> hexToNibbles (strings_ToLower s) ! i = hex_value (s ! i))) \<and>
   (validateInputs pre post n = None \<longrightarrow>
      prefixNibbles (main_step (init pre post n)) = hexToNibbles (strings_ToLower pre) \<and>
      postfixNibbles (main_step (init pre post n)) = hexToNibbles (strings_ToLower post))"
proof -
  have a: "\<forall>i<length s.
      hexToNibbles s ! i =
        (if ch CHR ''0'' \<le> s ! i \<and> s ! i \<le> ch CHR ''9'' then s ! i - ch CHR ''0''
         else if ch CHR ''a'' \<le> s ! i \<and> s ! i \<le> ch CHR ''f'' then s ! i - ch CHR ''a'' + 10
         else 0)"
    by (simp add: hexToNibbles_nth lower_value_def)
  have b: "\<forall>i<length s. hexToNibbles s ! i < 16"
    by (simp add: hexToNibbles_nth lower_value_lt16)
  have c: "\<forall>i<length s. ch CHR ''A'' \<le> s ! i \<and> s ! i \<le> ch CHR ''F'' \<longrightarrow> hexToNibbles s ! i = 0"
    using upper_value_0 by (simp add: hexToNibbles_nth)
  have d: "\<forall>i<length s. isHex s \<longrightarrow> hexToNibbles (strings_ToLower s) ! i = hex_value (s ! i)"
  proof (intro allI impI)
    fix i assume i: "i < length s" and h: "isHex s"
    then have "hex_digit (s ! i)"
      by (simp add: isHex_iff)
    then show "hexToNibbles (strings_ToLower s) ! i = hex_value (s ! i)"
      using i lower_value_ToLower [of "s ! i"]
      by (simp add: hexToNibbles_nth strings_ToLower_def)
  qed
  show ?thesis
    using a b c d by (simp add: length_hexToNibbles prefixNibbles_main_step)
qed

theorem hexToNibbles_correct_witness:
  "hexToNibbles (bytes_of ''caFE'') = [12, 10, 0, 0] \<and>
   isHex (bytes_of ''caFE'') \<and>
   hexToNibbles (strings_ToLower (bytes_of ''caFE'')) ! 2 = hex_value (bytes_of ''caFE'' ! 2) \<and>
   hexToNibbles (strings_ToLower (bytes_of ''caFE'')) = [12, 10, 15, 14] \<and>
   validateInputs (bytes_of ''caFE'') [] 1 = None \<and>
   prefixNibbles (main_step (init (bytes_of ''caFE'') [] 1)) = [12, 10, 15, 14]"
proof -
  have v: "validateInputs (bytes_of ''caFE'') [] 1 = None" and h: "isHex (bytes_of ''caFE'')"
    by (simp_all add: validateInputs_def bytes_of_def)
  have e: "hexToNibbles (bytes_of ''caFE'') = [12, 10, 0, 0]"
    "hexToNibbles (strings_ToLower (bytes_of ''caFE'')) = [12, 10, 15, 14]"
    by (simp_all add: hexToNibbles_def bytes_of_def hexToNibbles_loop.simps strings_ToLower_def)
  have l: "(2::nat) < length (bytes_of ''caFE'')"
    by (simp add: bytes_of_def)
  from hexToNibbles_correct [of "bytes_of ''caFE''" "bytes_of ''caFE''" "[]" 1] v h l
  have "hexToNibbles (strings_ToLower (bytes_of ''caFE'')) ! 2 = hex_value (bytes_of ''caFE'' ! 2)"
    and "prefixNibbles (main_step (init (bytes_of ''caFE'') [] 1))
           = hexToNibbles (strings_ToLower (bytes_of ''caFE''))"
    by blast+
  with v h e show ?thesis
    by simp
qed

section \<open>Validation\<close>

lemma validateInputs_None_iff:
  "validateInputs pre post n = None \<longleftrightarrow>
     length pre \<le> 32 \<and> isHex pre \<and> length post \<le> 32 \<and> isHex post \<and>
     \<not> (pre = [] \<and> post = []) \<and> 1 \<le> n"
  by (cases "pre = []"; cases "post = []") (auto simp add: validateInputs_def)

lemma crashed_no_goroutines: "goroutines s = [] \<Longrightarrow> \<not> crashed s"
  by (simp add: crashed_def)

lemma step_init_invalid:
  assumes "validateInputs pre post n = Some err"
    and "s = init pre post n \<or> s = (init pre post n)\<lparr>at_main := MExit err\<rparr>"
  shows "step P e s = init pre post n \<or> step P e s = (init pre post n)\<lparr>at_main := MExit err\<rparr>"
proof (cases e)
  case Main
  from assms(2) show ?thesis
  proof
    assume "s = init pre post n"
    with assms(1) Main show ?thesis
      by (simp add: step_def crashed_def main_step_def init_def)
  next
    assume "s = (init pre post n)\<lparr>at_main := MExit err\<rparr>"
    with Main show ?thesis
      by (simp add: step_def crashed_def main_step_def init_def)
  qed
next
  case (Worker i r)
  with assms(2) show ?thesis
    by (auto simp add: step_def crashed_def worker_def init_def)
qed

lemma run_init_invalid:
  assumes "validateInputs pre post n = Some err"
    and "s = init pre post n \<or> s = (init pre post n)\<lparr>at_main := MExit err\<rparr>"
  shows "run P sched s = init pre post n \<or> run P sched s = (init pre post n)\<lparr>at_main := MExit err\<rparr>"
  using assms(2)
proof (induction sched arbitrary: s)
  case Nil
  then show ?case by simp
next
  case (Cons e es)
  have "step P e s = init pre post n \<or> step P e s = (init pre post n)\<lparr>at_main := MExit err\<rparr>"
    using assms(1) Cons.prems by (rule step_init_invalid)
  then show ?case
    using Cons.IH by simp
qed

text \<open>
  Claim C6.  \<open>validateInputs\<close> returns an error exactly when the prefix or the postfix
  contains a byte that is not a hexadecimal digit or is longer than 32, or both are empty,
  or the worker count is below 1.  When it returns an error, \<open>main\<close> leaves before it
  spawns a worker: in every execution from the initial state there is no goroutine at any
  time and \<open>main\<close> is at its start or has left with that error.  When it returns no error,
  \<open>main\<close> goes on to the spawn loop.
\<close>

theorem validateInputs_correct:
  "(validateInputs pre post n \<noteq> None \<longleftrightarrow>
      (\<exists>c\<in>set pre. \<not> hex_digit c) \<or> length pre > 32 \<or>
      (\<exists>c\<in>set post. \<not> hex_digit c) \<or> length post > 32 \<or>
      (pre = [] \<and> post = []) \<or> n < 1) \<and>
   (validateInputs pre post n \<noteq> None \<longrightarrow>
      goroutines (run P sched (init pre post n)) = [] \<and>
      (at_main (run P sched (init pre post n)) = MStart \<or>
       at_main (run P sched (init pre post n)) = MExit (the (validateInputs pre post n)))) \<and>
   (validateInputs pre post n = None \<longrightarrow>
      at_main (step P Main (init pre post n)) = MSpawn 0)"
proof -
  have a: "validateInputs pre post n \<noteq> None \<longleftrightarrow>
      (\<exists>c\<in>set pre. \<not> hex_digit c) \<or> length pre > 32 \<or>
      (\<exists>c\<in>set post. \<not> hex_digit c) \<or> length post > 32 \<or>
      (pre = [] \<and> post = []) \<or> n < 1"
    unfolding validateInputs_None_iff isHex_iff by auto
  have b: "goroutines (run P sched (init pre post n)) = [] \<and>
      (at_main (run P sched (init pre post n)) = MStart \<or>
       at_main (run P sched (init pre post n)) = MExit (the (validateInputs pre post n)))"
    if "validateInputs pre post n \<noteq> None"
  proof -
    from that obtain err where e: "validateInputs pre post n = Some err"
      by auto
    from run_init_invalid [OF e, of "init pre post n" P sched]
    show ?thesis
      by (auto simp add: e init_def)
  qed
  have c: "at_main (step P Main (init pre post n)) = MSpawn 0"
    if "validateInputs pre post n = None"
    using that prefixNibbles_main_step(3) [OF that]
    by (simp add: step_def crashed_def init_def)
  show ?thesis
    using a b c by blast
qed

theorem validateInputs_correct_witness:
  "validateInputs (bytes_of ''cafe'') [] 4 = None \<and>
   at_main (step toy Main (init (bytes_of ''cafe'') [] 4)) = MSpawn 0 \<and>
   validateInputs (bytes_of ''cafg'') [] 4 \<noteq> None \<and>
   validateInputs (bytes_of ''0123456789abcdef0123456789abcdef0'') [] 4 \<noteq> None \<and>
   validateInputs [] [] 4 \<noteq> None \<and>
   validateInputs (bytes_of ''cafe'') [] 0 \<noteq> None \<and>
   goroutines (run toy [Main, Main, Worker 0 RandErr] (init (bytes_of ''cafe'') [] 0)) = []"
proof -
  have h: "\<forall>c\<in>set (bytes_of ''cafe''). hex_digit c" "\<exists>c\<in>set (bytes_of ''cafg''). \<not> hex_digit c"
    by (simp_all add: bytes_of_def hex_digit_def)
  have l: "length (bytes_of ''cafe'') \<le> 32" "length (bytes_of ''0123456789abcdef0123456789abcdef0'') > 32"
    by (simp_all add: bytes_of_def)
  have n: "bytes_of ''cafe'' \<noteq> []"
    by (simp add: bytes_of_def)
  have a: "validateInputs (bytes_of ''cafe'') [] 4 = None"
    using validateInputs_correct [of "bytes_of ''cafe''" "[]" 4 toy "[]"] h l n by simp
  have b: "validateInputs (bytes_of ''cafg'') [] 4 \<noteq> None"
    using validateInputs_correct [of "bytes_of ''cafg''" "[]" 4 toy "[]"] h by blast
  have c: "validateInputs (bytes_of ''0123456789abcdef0123456789abcdef0'') [] 4 \<noteq> None"
    using validateInputs_correct [of "bytes_of ''0123456789abcdef0123456789abcdef0''" "[]" 4 toy "[]"] l
    by blast
  have d: "validateInputs [] [] 4 \<noteq> None"
    using validateInputs_correct [of "[]" "[]" 4 toy "[]"] by blast
  have e: "validateInputs (bytes_of ''cafe'') [] 0 \<noteq> None"
    using validateInputs_correct [of "bytes_of ''cafe''" "[]" 0 toy "[]"] by simp
  have f: "goroutines (run toy [Main, Main, Worker 0 RandErr] (init (bytes_of ''cafe'') [] 0)) = []"
    using validateInputs_correct [of "bytes_of ''cafe''" "[]" 0 toy "[Main, Main, Worker 0 RandErr]"] e
    by blast
  have g: "at_main (step toy Main (init (bytes_of ''cafe'') [] 4)) = MSpawn 0"
    using validateInputs_correct [of "bytes_of ''cafe''" "[]" 4 toy "[]"] a by blast
  from a b c d e f g show ?thesis
    by blast
qed

section \<open>Matching\<close>

declare check_loop.simps [simp del]

lemma go_div_nat: "go_div (int k) 2 = int (k div 2)"
  by (cases "k = 0") (simp_all add: go_div_def zdiv_int)

lemma go_mod_nat: "go_mod (int k) 2 = int (k mod 2)"
  unfolding go_mod_def go_div_nat
  by (simp add: zdiv_int zmod_int minus_mult_div_eq_mod)

lemma nibbleAt_nat:
  assumes "k < 2 * length addr"
  shows "nibbleAt addr (int k) = Inr (spec_nibble addr k)"
proof -
  have "k div 2 < length addr"
    using assms by simp
  then have i: "index addr (int (k div 2)) = Inr (addr ! (k div 2))"
    by (simp add: index_def)
  have e: "(int (k mod 2) = 0) = even k"
    by presburger
  show ?thesis
    unfolding nibbleAt_def go_div_nat go_mod_nat Let_def i e
    by (simp add: spec_nibble_def)
qed

lemma check_loop_spec:
  assumes "st + length nibbles \<le> 2 * length addr"
  shows "check_loop addr nibbles (int st) i =
           Inr (\<forall>j<length nibbles. i \<le> j \<longrightarrow> spec_nibble addr (st + j) = nibbles ! j)"
  using assms
proof (induction addr nibbles "int st" i rule: check_loop.induct)
  case (1 addr nibbles i)
  show ?case
  proof (cases "i < length nibbles")
    case True
    then have "st + i < 2 * length addr"
      using "1.prems" by simp
    then have n: "nibbleAt addr (int st + int i) = Inr (spec_nibble addr (st + i))"
      using nibbleAt_nat [of "st + i" addr] by simp
    show ?thesis
    proof (cases "spec_nibble addr (st + i) = nibbles ! i")
      case False
      with True n show ?thesis
        by (subst check_loop.simps) auto
    next
      case eq: True
      have "check_loop addr nibbles (int st) i = check_loop addr nibbles (int st) (i + 1)"
        using True n eq by (subst check_loop.simps) simp
      also have "\<dots> = Inr (\<forall>j<length nibbles. i + 1 \<le> j \<longrightarrow> spec_nibble addr (st + j) = nibbles ! j)"
        using "1.hyps" [OF True n _ "1.prems"] eq by simp
      also have "(\<forall>j<length nibbles. i + 1 \<le> j \<longrightarrow> spec_nibble addr (st + j) = nibbles ! j) =
                 (\<forall>j<length nibbles. i \<le> j \<longrightarrow> spec_nibble addr (st + j) = nibbles ! j)"
      proof (intro iffI allI impI)
        fix j assume a: "\<forall>j<length nibbles. i + 1 \<le> j \<longrightarrow> spec_nibble addr (st + j) = nibbles ! j"
          and j: "j < length nibbles" "i \<le> j"
        show "spec_nibble addr (st + j) = nibbles ! j"
        proof (cases "j = i")
          case True
          with eq show ?thesis by simp
        next
          case False
          with j have "i + 1 \<le> j" by simp
          with a j show ?thesis by blast
        qed
      next
        fix j assume a: "\<forall>j<length nibbles. i \<le> j \<longrightarrow> spec_nibble addr (st + j) = nibbles ! j"
          and j: "j < length nibbles" "i + 1 \<le> j"
        then show "spec_nibble addr (st + j) = nibbles ! j"
          by simp
      qed
      finally show ?thesis .
    qed
  next
    case False
    then show ?thesis
      by (subst check_loop.simps) simp
  qed
qed

lemma matchesPattern_Inr:
  assumes "length addr = 16" and "length pn \<le> 32" and "length sn \<le> 32"
  shows "matchesPattern pn sn addr =
           Inr ((\<forall>i<length pn. spec_nibble addr i = pn ! i) \<and>
                (\<forall>j<length sn. spec_nibble addr (32 - length sn + j) = sn ! j))"
proof -
  have p: "check_loop addr pn 0 0 = Inr (\<forall>i<length pn. spec_nibble addr i = pn ! i)"
    using check_loop_spec [of 0 pn addr 0] assms by simp
  have "int (length addr) * 2 - int (length sn) = int (32 - length sn)"
    using assms by simp
  moreover have "check_loop addr sn (int (32 - length sn)) 0 =
           Inr (\<forall>j<length sn. spec_nibble addr (32 - length sn + j) = sn ! j)"
    using check_loop_spec [of "32 - length sn" sn addr 0] assms by simp
  ultimately have s: "check_loop addr sn (int (length addr) * 2 - int (length sn)) 0 =
           Inr (\<forall>j<length sn. spec_nibble addr (32 - length sn + j) = sn ! j)"
    by simp
  show ?thesis
    unfolding matchesPattern_def Let_def p s
    by (simp split: bool.splits)
qed

lemma matchesPattern_total:
  assumes "length addr = 16" and "length pn \<le> 32" and "length sn \<le> 32"
  shows "\<exists>b. matchesPattern pn sn addr = Inr b"
  using matchesPattern_Inr [OF assms] by blast

text \<open>
  Claim C2.  For an address of 16 bytes and nibble slices of at most 32 entries each,
  \<open>matchesPattern\<close> does not panic and returns true exactly when every prefix nibble
  \<open>i\<close> equals nibble \<open>i\<close> of the address and every postfix nibble \<open>j\<close> equals nibble
  \<open>32 - len + j\<close> of the address, where an even nibble index is the high half and an odd one
  the low half of byte \<open>i div 2\<close>; an empty slice passes.
\<close>

theorem matchesPattern_correct:
  assumes "length addr = 16" and "length pn \<le> 32" and "length sn \<le> 32"
  shows "matchesPattern pn sn addr =
           Inr ((\<forall>i<length pn. spec_nibble addr i = pn ! i) \<and>
                (\<forall>j<length sn. spec_nibble addr (32 - length sn + j) = sn ! j))"
  using assms by (rule matchesPattern_Inr)

lemma nibbleAt_eval:
  "nibbleAt addr0 0 = Inr 12" "nibbleAt addr0 1 = Inr 10" "nibbleAt addr0 2 = Inr 15"
  "nibbleAt addr0 3 = Inr 14" "nibbleAt addr0 4 = Inr 10" "nibbleAt addr0 5 = Inr 11"
  "nibbleAt addr0 6 = Inr 12" "nibbleAt addr0 30 = Inr 11" "nibbleAt addr0 31 = Inr 14"
  by (simp_all add: nibbleAt_def addr0_def go_div_def go_mod_def index_def Let_def)

lemma length_addr0: "length addr0 = 16"
  by (simp add: addr0_def)

lemma matches_eval:
  "matchesPattern [12, 10, 15, 14] [] addr0 = Inr True"
  "matchesPattern [12, 10, 15, 13] [] addr0 = Inr False"
  "matchesPattern [] [11, 14] addr0 = Inr True"
  "matchesPattern [] [14] addr0 = Inr True"
  "matchesPattern [] [14, 15] addr0 = Inr False"
  "matchesPattern [10, 11, 12] [] (drop 2 addr0 @ [0, 0]) = Inr True"
  "matchesPattern [12, 10] [11, 14] addr0 = Inr True"
  by (simp_all add: matchesPattern_def check_loop.simps nibbleAt_def addr0_def go_div_def go_mod_def index_def Let_def)

theorem matchesPattern_correct_witness:
  "length addr0 = 16 \<and>
   matchesPattern [12, 10, 15, 14] [] addr0 = Inr True \<and>
   matchesPattern [12, 10, 15, 13] [] addr0 = Inr False \<and>
   matchesPattern [] [11, 14] addr0 = Inr True \<and>
   matchesPattern [] [14] addr0 = Inr True \<and>
   matchesPattern [] [14, 15] addr0 = Inr False \<and>
   matchesPattern [10, 11, 12] [] (drop 2 addr0 @ [0, 0]) = Inr True \<and>
   matchesPattern [12, 10] [11, 14] addr0 = Inr True \<and>
   spec_nibble addr0 0 = 12 \<and> spec_nibble addr0 1 = 10 \<and>
   spec_nibble addr0 30 = 11 \<and> spec_nibble addr0 31 = 14 \<and>
   \<not> (\<forall>i<length [12, 10, 15, 13 :: byte]. spec_nibble addr0 i = [12, 10, 15, 13] ! i)"
proof -
  have a: "(\<forall>i<length [12, 10 :: byte]. spec_nibble addr0 i = [12, 10] ! i) \<and>
    (\<forall>j<length [11, 14 :: byte]. spec_nibble addr0 (32 - length [11, 14 :: byte] + j) = [11, 14] ! j)"
    using matchesPattern_correct [of addr0 "[12, 10]" "[11, 14]"] length_addr0
    by (simp only: matches_eval sum.inject) simp
  from a have a1: "\<forall>i<2. spec_nibble addr0 i = [12, 10 :: byte] ! i"
    and a2: "\<forall>j<2. spec_nibble addr0 (30 + j) = [11, 14 :: byte] ! j"
    by simp_all
  have p: "spec_nibble addr0 0 = 12" "spec_nibble addr0 1 = 10"
    using a1 [rule_format, of 0] a1 [rule_format, of 1] by simp_all
  have q: "spec_nibble addr0 30 = 11" "spec_nibble addr0 31 = 14"
    using a2 [rule_format, of 0] a2 [rule_format, of 1] by simp_all
  have b: "\<not> (\<forall>i<length [12, 10, 15, 13 :: byte]. spec_nibble addr0 i = [12, 10, 15, 13] ! i)"
    using matchesPattern_correct [of addr0 "[12, 10, 15, 13]" "[]"] length_addr0
    by (simp only: matches_eval sum.inject) simp
  from p q b show ?thesis
    by (simp only: matches_eval length_addr0) simp
qed

section \<open>The identity file\<close>

lemma path_neq_txt: "path @ ''.txt'' \<noteq> path"
  by simp

lemma written_prefix: "written out p = take (length (written out p)) p"
  by (cases out) (simp_all add: written_def min_def)

lemma written_ok [simp]: "written WriteOk p = p"
  by (simp add: written_def)

lemma saveIdentity_ok:
  assumes "fst (saveIdentity E io identity path fs) = None"
  shows "create_file io \<and> write_private io = WriteOk \<and> write_seed io = WriteOk \<and> create_infoFile io"
  using assms by (simp add: saveIdentity_def Let_def split: if_splits)

lemma saveIdentity_both_written:
  assumes "create_file io" and "write_private io = WriteOk" and "write_seed io = WriteOk"
  shows "snd (saveIdentity E io identity path fs) path =
           Some (X25519Private identity @ Ed25519Seed identity)"
  using assms by (simp add: saveIdentity_def Let_def)

lemma saveIdentity_prefix:
  assumes "create_file io"
  shows "\<exists>n. snd (saveIdentity E io identity path fs) path =
           Some (take n (X25519Private identity @ Ed25519Seed identity))"
proof (cases "write_private io")
  case WriteOk
  show ?thesis
  proof (cases "write_seed io")
    case w: WriteOk
    have "snd (saveIdentity E io identity path fs) path =
            Some (take (length (X25519Private identity @ Ed25519Seed identity))
                       (X25519Private identity @ Ed25519Seed identity))"
      using assms WriteOk w by (simp add: saveIdentity_both_written)
    then show ?thesis ..
  next
    case (WriteErr n)
    have "snd (saveIdentity E io identity path fs) path =
            Some (take (length (X25519Private identity) + n)
                       (X25519Private identity @ Ed25519Seed identity))"
      using assms WriteOk WriteErr by (simp add: saveIdentity_def Let_def written_def)
    then show ?thesis ..
  qed
next
  case (WriteErr n)
  have "snd (saveIdentity E io identity path fs) path =
          Some (take (min n (length (X25519Private identity)))
                     (X25519Private identity @ Ed25519Seed identity))"
    using assms WriteErr by (simp add: saveIdentity_def Let_def written_def min_def)
  then show ?thesis ..
qed

lemma saveIdentity_other_paths:
  assumes "p \<noteq> path" and "p \<noteq> path @ ''.txt''"
  shows "snd (saveIdentity E io identity path fs) p = fs p"
  using assms by (simp add: saveIdentity_def Let_def)

text \<open>
  Claim C9.  When \<open>saveIdentity\<close> returns no error, the file at \<open>path\<close> holds exactly the 64
  bytes \<open>X25519Private @ Ed25519Seed\<close>: bytes 0-31 the exchange private key, bytes 32-63
  the signing seed.  The same holds as soon as the file is created and both writes
  succeed, also if the info file then fails.  Whatever fails, the file holds a prefix of
  those 64 bytes and nothing else; the info text goes to another path.  Under \<open>--dry-run\<close>
  nothing is written.
\<close>

theorem saveIdentity_binary_file:
  assumes "Identity_sized identity"
  shows "(fst (saveIdentity E io identity path fs) = None \<longrightarrow>
            snd (saveIdentity E io identity path fs) path =
              Some (X25519Private identity @ Ed25519Seed identity)) \<and>
         length (X25519Private identity @ Ed25519Seed identity) = 64 \<and>
         take 32 (X25519Private identity @ Ed25519Seed identity) = X25519Private identity \<and>
         drop 32 (X25519Private identity @ Ed25519Seed identity) = Ed25519Seed identity \<and>
         (create_file io \<and> write_private io = WriteOk \<and> write_seed io = WriteOk \<longrightarrow>
            snd (saveIdentity E io identity path fs) path =
              Some (X25519Private identity @ Ed25519Seed identity)) \<and>
         (create_file io \<longrightarrow>
            (\<exists>n. snd (saveIdentity E io identity path fs) path =
                    Some (take n (X25519Private identity @ Ed25519Seed identity)))) \<and>
         (\<not> create_file io \<longrightarrow> snd (saveIdentity E io identity path fs) = fs) \<and>
         snd (main_save E io True identity path fs) = fs \<and>
         main_save E io False identity path fs = saveIdentity E io identity path fs"
proof -
  have a: "snd (saveIdentity E io identity path fs) path =
              Some (X25519Private identity @ Ed25519Seed identity)"
    if "fst (saveIdentity E io identity path fs) = None"
    using saveIdentity_ok [OF that] by (simp add: saveIdentity_both_written)
  have b: "length (X25519Private identity @ Ed25519Seed identity) = 64"
    "take 32 (X25519Private identity @ Ed25519Seed identity) = X25519Private identity"
    "drop 32 (X25519Private identity @ Ed25519Seed identity) = Ed25519Seed identity"
    using assms by (simp_all add: Identity_sized_def)
  have c: "snd (saveIdentity E io identity path fs) = fs" if "\<not> create_file io"
    using that by (simp add: saveIdentity_def)
  have d: "snd (main_save E io True identity path fs) = fs"
    "main_save E io False identity path fs = saveIdentity E io identity path fs"
    by (simp_all add: main_save_def)
  show ?thesis
    using a b c d saveIdentity_prefix [of io E identity path fs]
      saveIdentity_both_written [of io E identity path fs]
    by blast
qed

theorem saveIdentity_binary_file_witness:
  "Identity_sized id1 \<and>
   fst (saveIdentity toy_encoders io_ok id1 ''identity'' Map.empty) = None \<and>
   snd (saveIdentity toy_encoders io_ok id1 ''identity'' Map.empty) ''identity'' =
     Some (replicate 32 64 @ replicate 32 7) \<and>
   snd (saveIdentity toy_encoders (io_ok\<lparr>write_seed := WriteErr 5\<rparr>) id1 ''identity'' Map.empty)
     ''identity'' = Some (replicate 32 64 @ replicate 5 7) \<and>
   snd (saveIdentity toy_encoders (io_ok\<lparr>create_infoFile := False\<rparr>) id1 ''identity'' Map.empty)
     ''identity'' = Some (replicate 32 64 @ replicate 32 7) \<and>
   snd (saveIdentity toy_encoders (io_ok\<lparr>create_file := False\<rparr>) id1 ''identity'' Map.empty) =
     Map.empty"
proof -
  have s: "Identity_sized id1"
    by (simp add: id1_def id0_def Identity_sized_def zero_Identity_def)
  have k: "X25519Private id1 = replicate 32 64" "Ed25519Seed id1 = replicate 32 7"
    by (simp_all add: id1_def)
  have n: "fst (saveIdentity toy_encoders io_ok id1 ''identity'' Map.empty) = None"
    by (simp add: saveIdentity_def io_ok_def Let_def)
  have e: "snd (saveIdentity toy_encoders (io_ok\<lparr>write_seed := WriteErr 5\<rparr>) id1 ''identity'' Map.empty)
     ''identity'' = Some (replicate 32 64 @ replicate 5 7)"
    by (simp add: saveIdentity_def io_ok_def Let_def written_def k)
  note t = saveIdentity_binary_file [OF s, of toy_encoders _ "''identity''" Map.empty]
  from t [of io_ok] n have 1:
    "snd (saveIdentity toy_encoders io_ok id1 ''identity'' Map.empty) ''identity'' =
       Some (X25519Private id1 @ Ed25519Seed id1)"
    by blast
  have "create_file (io_ok\<lparr>create_infoFile := False\<rparr>) \<and>
        write_private (io_ok\<lparr>create_infoFile := False\<rparr>) = WriteOk \<and>
        write_seed (io_ok\<lparr>create_infoFile := False\<rparr>) = WriteOk"
    by (simp add: io_ok_def)
  with t [of "io_ok\<lparr>create_infoFile := False\<rparr>"] have 2:
    "snd (saveIdentity toy_encoders (io_ok\<lparr>create_infoFile := False\<rparr>) id1 ''identity'' Map.empty)
       ''identity'' = Some (X25519Private id1 @ Ed25519Seed id1)"
    by blast
  have "\<not> create_file (io_ok\<lparr>create_file := False\<rparr>)"
    by simp
  with t [of "io_ok\<lparr>create_file := False\<rparr>"] have 3:
    "snd (saveIdentity toy_encoders (io_ok\<lparr>create_file := False\<rparr>) id1 ''identity'' Map.empty) =
       Map.empty"
    by blast
  show ?thesis
    using s n e 1 2 3 unfolding k by blast
qed

section \<open>Steps and executions\<close>

lemma run_append: "run P (xs @ ys) s = run P ys (run P xs s)"
  by (induction xs arbitrary: s) simp_all

lemma goto_fields [simp]:
  "wg (goto i pc s) = wg s" "resultChan (goto i pc s) = resultChan s"
  "at_main (goto i pc s) = at_main s" "workers (goto i pc s) = workers s"
  "found (goto i pc s) = found s"
  "prefixNibbles (goto i pc s) = prefixNibbles s" "postfixNibbles (goto i pc s) = postfixNibbles s"
  "length (goroutines (goto i pc s)) = length (goroutines s)"
  by (simp_all add: goto_def)

lemma goroutines_goto: "goroutines (goto i pc s) = (goroutines s)[i := pc]"
  by (simp add: goto_def)

lemma totalAttempts_goto [simp]: "totalAttempts (goto i pc s) = totalAttempts s"
  by (simp add: goto_def)

lemma crashed_fields [simp]:
  "crashed (s\<lparr>totalAttempts := c\<rparr>) = crashed s"
  "crashed (s\<lparr>resultChan := q\<rparr>) = crashed s"
  "crashed (s\<lparr>wg := w\<rparr>) = crashed s"
  "crashed (s\<lparr>at_main := m\<rparr>) = crashed s"
  "crashed (s\<lparr>found := f\<rparr>) = crashed s"
  by (simp_all add: crashed_def)

lemma panicked_fields [simp]:
  "panicked (s\<lparr>totalAttempts := c\<rparr>) = panicked s"
  "panicked (s\<lparr>resultChan := q\<rparr>) = panicked s"
  "panicked (s\<lparr>wg := w\<rparr>) = panicked s"
  "panicked (s\<lparr>at_main := m\<rparr>) = panicked s"
  "panicked (s\<lparr>found := f\<rparr>) = panicked s"
  by (simp_all add: panicked_def)

lemma panicked_crashed: "panicked s \<Longrightarrow> crashed s"
  by (auto simp add: panicked_def crashed_def list_ex_iff split: worker_pc.splits)

lemma not_crashed_goto:
  assumes "\<not> crashed s" and "\<forall>e. pc \<noteq> WPanic e" and "pc \<noteq> WFatal"
  shows "\<not> crashed (goto i pc s)"
proof -
  have "set ((goroutines s)[i := pc]) \<subseteq> insert pc (set (goroutines s))"
    by (rule set_update_subset_insert)
  with assms show ?thesis
    by (auto simp add: crashed_def goto_def list_ex_iff split: worker_pc.splits)
qed

lemma not_panicked_goto:
  assumes "\<not> panicked s" and "\<forall>e. pc \<noteq> WPanic e"
  shows "\<not> panicked (goto i pc s)"
proof -
  have "set ((goroutines s)[i := pc]) \<subseteq> insert pc (set (goroutines s))"
    by (rule set_update_subset_insert)
  with assms show ?thesis
    by (auto simp add: panicked_def goto_def list_ex_iff split: worker_pc.splits)
qed

lemma crashed_goto_WFatal:
  assumes "i < length (goroutines s)"
  shows "crashed (goto i WFatal s)"
proof -
  have "WFatal \<in> set ((goroutines s)[i := WFatal])"
    using assms by (rule set_update_memI)
  then show ?thesis
    by (force simp add: crashed_def goto_def list_ex_iff)
qed

lemma main_step_MStart_fields:
  assumes "at_main s = MStart" and "validateInputs (prefix s) (postfix s) (workers s) = None"
  shows "goroutines (main_step s) = goroutines s" and "wg (main_step s) = wg s"
    and "resultChan (main_step s) = resultChan s" and "workers (main_step s) = workers s"
    and "at_main (main_step s) = MSpawn 0" and "found (main_step s) = found s"
  using assms by (simp_all add: main_step_def Let_def)

lemma crashed_main_step: "crashed (main_step s) = crashed s"
proof (cases "at_main s")
  case MStart
  then show ?thesis
    by (cases "validateInputs (prefix s) (postfix s) (workers s)")
      (simp_all add: main_step_def crashed_def Let_def)
next
  case (MSpawn i)
  then show ?thesis
    by (simp add: main_step_def crashed_def)
next
  case MRecv
  then show ?thesis
    by (cases "resultChan s") (simp_all add: main_step_def)
qed (simp_all add: main_step_def)

lemma panicked_main_step: "panicked (main_step s) = panicked s"
proof (cases "at_main s")
  case MStart
  then show ?thesis
    by (cases "validateInputs (prefix s) (postfix s) (workers s)")
      (simp_all add: main_step_def panicked_def Let_def)
next
  case (MSpawn i)
  then show ?thesis
    by (simp add: main_step_def panicked_def)
next
  case MRecv
  then show ?thesis
    by (cases "resultChan s") (simp_all add: main_step_def)
qed (simp_all add: main_step_def)

lemma at_main_worker [simp]: "at_main (worker P i r s) = at_main s"
  by (simp add: worker_def Let_def goto_def
      split: worker_pc.splits rand_result.splits sum.splits bool.splits)

lemma found_worker [simp]: "found (worker P i r s) = found s"
  by (simp add: worker_def Let_def
      split: worker_pc.splits rand_result.splits sum.splits bool.splits)

lemma length_goroutines_worker [simp]:
  "length (goroutines (worker P i r s)) = length (goroutines s)"
  by (simp add: worker_def Let_def
      split: worker_pc.splits rand_result.splits sum.splits bool.splits)

lemma worker_other:
  "j \<noteq> i \<Longrightarrow> goroutines (worker P i r s) ! j = goroutines s ! j"
  by (simp add: worker_def Let_def goroutines_goto
      split: worker_pc.splits rand_result.splits sum.splits bool.splits)

lemma worker_done_stays:
  assumes "goroutines s ! j = WDone"
  shows "goroutines (worker P i r s) ! j = WDone"
proof (cases "j = i")
  case True
  with assms show ?thesis
    by (simp add: worker_def)
next
  case False
  with assms show ?thesis
    by (simp add: worker_other)
qed

lemma workers_step [simp]: "workers (step P e s) = workers s"
proof (cases e)
  case Main
  then show ?thesis
    by (cases "at_main s")
      (simp_all add: step_def main_step_def Let_def split: option.splits list.splits)
next
  case (Worker i r)
  then show ?thesis
    by (simp add: step_def worker_def Let_def goto_def
        split: worker_pc.splits rand_result.splits sum.splits bool.splits)
qed

lemma workers_run [simp]: "workers (run P sched s) = workers s"
  by (induction sched arbitrary: s) simp_all

text \<open>What a step of a worker that is not done does to the state, by cases.\<close>

lemma worker_cases:
  assumes "i < length (goroutines s)"
  obtains
    (top) "goroutines s ! i = WTop" "worker P i r s = goto i (if found s = 1 then WReturn else WRand) s"
  | (rand_err) "goroutines s ! i = WRand" "worker P i r s = goto i WTop s"
  | (rand_ok) randBuf where "goroutines s ! i = WRand" "length randBuf = 64"
        "worker P i r s = goto i (WCount (newIdentity P randBuf)) s"
  | (rand_fatal) "goroutines s ! i = WRand" "r = RandFatal" "worker P i r s = goto i WFatal s"
  | (count) identity pc where "goroutines s ! i = WCount identity"
        "pc = WTop \<or> pc = WPublish identity \<or> pc = WPanic IndexOutOfRange"
        "worker P i r s = goto i pc (s\<lparr>totalAttempts := totalAttempts s + 1\<rparr>)"
  | (publish) identity where "goroutines s ! i = WPublish identity" "resultChan s = []"
        "worker P i r s = goto i WReturn (s\<lparr>resultChan := [identity]\<rparr>)"
  | (drop) identity where "goroutines s ! i = WPublish identity" "resultChan s \<noteq> []"
        "worker P i r s = goto i WReturn s"
  | (return) "goroutines s ! i = WReturn" "worker P i r s = goto i WDone (s\<lparr>wg := wg s - 1\<rparr>)"
  | (stay) "worker P i r s = s"
proof (cases "goroutines s ! i")
  case WTop
  with assms have "worker P i r s = goto i (if found s = 1 then WReturn else WRand) s"
    by (simp add: worker_def)
  with WTop show ?thesis by (rule top)
next
  case WRand
  show ?thesis
  proof (cases r)
    case RandErr
    with WRand assms have "worker P i r s = goto i WTop s"
      by (simp add: worker_def)
    with WRand show ?thesis by (rule rand_err)
  next
    case (RandOk randBuf)
    show ?thesis
    proof (cases "length randBuf = 64")
      case True
      with WRand RandOk assms have "worker P i r s = goto i (WCount (newIdentity P randBuf)) s"
        by (simp add: worker_def)
      with WRand True show ?thesis by (rule rand_ok)
    next
      case False
      with WRand RandOk assms have "worker P i r s = s"
        by (simp add: worker_def)
      then show ?thesis by (rule stay)
    qed
  next
    case RandFatal
    with WRand assms have "worker P i r s = goto i WFatal s"
      by (simp add: worker_def)
    with WRand RandFatal show ?thesis by (rule rand_fatal)
  qed
next
  case (WCount identity)
  let ?s = "s\<lparr>totalAttempts := totalAttempts s + 1\<rparr>"
  let ?m = "matchesPattern (prefixNibbles s) (postfixNibbles s) (Address identity)"
  let ?pc = "case ?m of Inl e \<Rightarrow> WPanic e | Inr True \<Rightarrow> WPublish identity | Inr False \<Rightarrow> WTop"
  have w: "worker P i r s = goto i ?pc ?s"
    using WCount assms by (simp add: worker_def Let_def split: sum.splits bool.splits)
  have "?pc = WTop \<or> ?pc = WPublish identity \<or> ?pc = WPanic IndexOutOfRange"
    by (cases ?m) (auto split: bool.splits intro: go_panic.exhaust)
  with WCount show ?thesis using w by (rule count)
next
  case (WPublish identity)
  show ?thesis
  proof (cases "resultChan s = []")
    case True
    with WPublish assms have "worker P i r s = goto i WReturn (s\<lparr>resultChan := [identity]\<rparr>)"
      by (simp add: worker_def)
    with WPublish True show ?thesis by (rule publish)
  next
    case False
    then have "\<not> length (resultChan s) < 1" by (cases "resultChan s") simp_all
    with WPublish assms have "worker P i r s = goto i WReturn s"
      by (simp add: worker_def)
    with WPublish False show ?thesis by (rule drop)
  qed
next
  case WReturn
  with assms have "worker P i r s = goto i WDone (s\<lparr>wg := wg s - 1\<rparr>)"
    by (simp add: worker_def)
  with WReturn show ?thesis by (rule return)
next
  case WDone
  with assms have "worker P i r s = s" by (simp add: worker_def)
  then show ?thesis by (rule stay)
next
  case (WPanic e)
  with assms have "worker P i r s = s" by (simp add: worker_def)
  then show ?thesis by (rule stay)
next
  case WFatal
  with assms have "worker P i r s = s" by (simp add: worker_def)
  then show ?thesis by (rule stay)
qed

lemma Address_newIdentity_toy:
  assumes "length randBuf = 64"
  shows "\<exists>rest. Address (newIdentity toy randBuf) = 26 # rest \<and> length rest = 15"
proof -
  have g: "Identity_sized (generateKeyPairs toy randBuf)"
    using assms primitives_sized_toy by (rule Identity_sized_generateKeyPairs)
  have n: "length (nameHash toy) = 10"
    using primitives_sized_toy by (rule length_nameHash)
  let ?h = "Hash (computeHashes toy (nameHash toy) (generateKeyPairs toy randBuf))"
  have h: "length ?h = 16"
    using g by (simp add: computeHashes_def Let_def Identity_sized_def)
  have "Address (newIdentity toy randBuf) = take 16 (Sum256 toy (nameHash toy @ ?h))"
    unfolding newIdentity_def using primitives_sized_toy g n by (rule computeHashes_Address)
  also have "\<dots> = 26 # take 15 (nameHash toy @ ?h)"
    by (simp add: Sum256_toy n h)
  finally show ?thesis
    by (simp add: n h)
qed

lemma nibbleAt_0_toy:
  assumes "length randBuf = 64"
  shows "nibbleAt (Address (newIdentity toy randBuf)) 0 = Inr 1"
proof -
  from Address_newIdentity_toy [OF assms] obtain rest
    where "Address (newIdentity toy randBuf) = 26 # rest" by blast
  then show ?thesis
    by (simp add: nibbleAt_def go_div_def go_mod_def index_def)
qed

lemma matches_toy:
  assumes "length randBuf = 64"
  shows "matchesPattern [1] [] (Address (newIdentity toy randBuf)) = Inr True"
    and "matchesPattern [15] [] (Address (newIdentity toy randBuf)) = Inr False"
  using nibbleAt_0_toy [OF assms]
  by (simp_all add: matchesPattern_def check_loop.simps)

lemmas eval_step = step_def crashed_def main_step_def worker_def goto_def matches_toy
  validateInputs_def strings_ToLower_def hexToNibbles_f

lemma run_boot1: "run toy boot1 (init (bytes_of ''f'') [] 1) = s_top"
  by (simp add: boot1_def init_def bytes_of_def step_def crashed_def main_step_def
      validateInputs_def strings_ToLower_def hexToNibbles_f s_top_def)

lemma s_rand1_eq: "s_rand1 = goto 0 WRand s_top"
  using run_boot1
  by (simp add: s_rand1_def boot1_def) (simp add: s_top_def eval_step)

lemma run_race_prefix:
  "run toy (take 10 race) (init (bytes_of ''1'') [] 2) =
     \<lparr>prefix = [49], postfix = [], workers = 2, prefixNibbles = [1], postfixNibbles = [],
      totalAttempts = 2, found = 0, resultChan = [], wg = 2, at_main = MRecv,
      goroutines = [WPublish (newIdentity toy (replicate 64 1)),
                    WPublish (newIdentity toy (replicate 64 2))]\<rparr>"
  by (simp add: race_def init_def bytes_of_def eval_step)

lemma run_race:
  "run toy race (init (bytes_of ''1'') [] 2) =
     \<lparr>prefix = [49], postfix = [], workers = 2, prefixNibbles = [1], postfixNibbles = [],
      totalAttempts = 2, found = 0, resultChan = [newIdentity toy (replicate 64 2)], wg = 2,
      at_main = MStore (newIdentity toy (replicate 64 1)),
      goroutines = [WReturn, WReturn]\<rparr>"
proof -
  have "race = take 10 race @ [Worker 0 RandErr, Main, Worker 1 RandErr]"
    by (simp add: race_def)
  then have "run toy race (init (bytes_of ''1'') [] 2) =
      run toy [Worker 0 RandErr, Main, Worker 1 RandErr]
        (run toy (take 10 race) (init (bytes_of ''1'') [] 2))"
    by (metis run_append)
  then show ?thesis
    unfolding run_race_prefix by (simp add: eval_step)
qed

lemma run_race_finish:
  "run toy (race @ finish) (init (bytes_of ''1'') [] 2) =
     \<lparr>prefix = [49], postfix = [], workers = 2, prefixNibbles = [1], postfixNibbles = [],
      totalAttempts = 2, found = 1, resultChan = [newIdentity toy (replicate 64 2)], wg = 0,
      at_main = MDone (newIdentity toy (replicate 64 1)),
      goroutines = [WDone, WDone]\<rparr>"
  unfolding run_append run_race by (simp add: finish_def eval_step)

lemma filter_update_count:
  "i < length xs \<Longrightarrow>
     length (filter Q (xs[i := y])) + (if Q (xs ! i) then 1 else 0) =
     length (filter Q xs) + (if Q y then 1 else 0)"
proof (induction xs arbitrary: i)
  case Nil
  then show ?case by simp
next
  case (Cons x xs)
  show ?case
  proof (cases i)
    case 0
    then show ?thesis by simp
  next
    case (Suc j)
    with Cons.prems have "j < length xs" by simp
    from Cons.IH [OF this] Suc show ?thesis by simp
  qed
qed

lemma turns_Nil [simp]: "turns i [] = 0"
  by (simp add: turns_def)

lemma turns_Cons:
  "turns i (e # es) = (case e of Main \<Rightarrow> 0 | Worker j r \<Rightarrow> if j = i then 1 else 0) + turns i es"
  by (simp add: turns_def split: event.splits)

lemma turns_append: "turns i (xs @ ys) = turns i xs + turns i ys"
  by (simp add: turns_def)

lemma draws_ok_Cons: "draws_ok (e # es) \<longleftrightarrow> draw_ok e \<and> draws_ok es"
  by (simp add: draws_ok_def)

section \<open>The attempt counter\<close>

lemma totalAttempts_main_step: "totalAttempts (main_step s) = totalAttempts s"
  by (simp add: main_step_def Let_def split: main_pc.splits option.splits list.splits)

lemma totalAttempts_worker:
  "totalAttempts (worker P i r s) =
     (if i < length (goroutines s) \<and> (case goroutines s ! i of WCount identity \<Rightarrow> True | _ \<Rightarrow> False)
      then totalAttempts s + 1 else totalAttempts s)"
  by (simp add: worker_def Let_def
      split: worker_pc.splits rand_result.splits sum.splits bool.splits)

lemma totalAttempts_step:
  "totalAttempts (step P e s) = (if completes e s then totalAttempts s + 1 else totalAttempts s)"
proof (cases e)
  case Main
  then show ?thesis
    by (simp add: step_def completes_def totalAttempts_main_step)
next
  case (Worker i r)
  then show ?thesis
    by (simp add: step_def completes_def totalAttempts_worker)
qed

lemma totalAttempts_run:
  "totalAttempts (run P sched s) = totalAttempts s + of_nat (completed P sched s)"
proof (induction sched arbitrary: s)
  case Nil
  show ?case by simp
next
  case (Cons e es)
  show ?case
    by (simp add: Cons.IH totalAttempts_step)
qed

lemma completed_append:
  "completed P (xs @ ys) s = completed P xs s + completed P ys (run P xs s)"
  by (induction xs arbitrary: s) simp_all

lemma completed_le_length: "completed P sched s \<le> length sched"
  by (induction sched arbitrary: s) (simp_all add: le_SucI)

lemma unat_of_nat64: "k < 2 ^ 64 \<Longrightarrow> unat (of_nat k :: 64 word) = k"
  by (simp add: unat_of_nat)

lemma run_spin:
  "run toy spin (s_top\<lparr>totalAttempts := c\<rparr>) = s_top\<lparr>totalAttempts := c + 1\<rparr>"
  by (simp add: spin_def s_top_def step_def crashed_def worker_def goto_def matches_toy)

lemma run_spins:
  "run toy (concat (replicate k spin)) (s_top\<lparr>totalAttempts := c\<rparr>) =
     s_top\<lparr>totalAttempts := c + of_nat k\<rparr>"
proof (induction k arbitrary: c)
  case 0
  show ?case by simp
next
  case (Suc k)
  show ?case
    by (simp add: run_append run_spin Suc.IH add.assoc add.commute)
qed

lemma s_top_0: "s_top\<lparr>totalAttempts := 0\<rparr> = s_top"
  by (simp add: s_top_def)

lemma run_boot1_spins:
  "totalAttempts (run toy (boot1 @ concat (replicate k spin)) (init (bytes_of ''f'') [] 1)) = of_nat k"
  using run_spins [of k 0] by (simp add: run_append run_boot1 s_top_0)

lemma concat_replicate_Suc: "concat (replicate k xs) @ xs = concat (replicate (Suc k) xs)"
  by (induction k) simp_all

lemma in_flight_fields [simp]:
  "in_flight (s\<lparr>totalAttempts := c\<rparr>) = in_flight s"
  "in_flight (s\<lparr>resultChan := q\<rparr>) = in_flight s"
  "in_flight (s\<lparr>wg := w\<rparr>) = in_flight s"
  by (simp_all add: in_flight_def)

lemma in_flight_goto:
  assumes "i < length (goroutines s)"
  shows "in_flight (goto i pc s) + (case goroutines s ! i of WCount x \<Rightarrow> 1 | _ \<Rightarrow> 0) =
         in_flight s + (case pc of WCount x \<Rightarrow> 1 | _ \<Rightarrow> 0)"
proof -
  let ?Q = "\<lambda>pc. case pc of WCount x \<Rightarrow> True | _ \<Rightarrow> False"
  have q: "(if ?Q c then 1 else 0) = (case c of WCount x \<Rightarrow> 1 | _ \<Rightarrow> (0::nat))" for c
    by (cases c) simp_all
  from filter_update_count [OF assms, of ?Q pc] show ?thesis
    unfolding q by (simp add: in_flight_def goto_def)
qed

lemma goroutines_main_step:
  "goroutines (main_step s) = goroutines s \<or> goroutines (main_step s) = goroutines s @ [WTop]"
proof (cases "at_main s")
  case MStart
  show ?thesis
  proof (cases "validateInputs (prefix s) (postfix s) (workers s)")
    case None
    with MStart show ?thesis
      by (simp add: main_step_MStart_fields)
  next
    case (Some err)
    with MStart show ?thesis
      by (simp add: main_step_def)
  qed
next
  case MRecv
  then show ?thesis
    by (cases "resultChan s") (simp_all add: main_step_def)
qed (simp_all add: main_step_def)

lemma in_flight_main_step: "in_flight (main_step s) = in_flight s"
  using goroutines_main_step [of s] by (auto simp add: in_flight_def)

lemma ledger_worker:
  assumes "\<not> crashed s"
  shows "(if completes (Worker i r) s then 1 else 0) + in_flight (worker P i r s) =
         in_flight s + (if derives (Worker i r) s then 1 else 0)"
proof (cases "i < length (goroutines s)")
  case False
  with assms show ?thesis
    by (simp add: worker_def completes_def derives_def)
next
  case True
  note g = in_flight_goto [OF True]
  show ?thesis
  proof (cases "goroutines s ! i")
    case WTop
    with True assms g [of WReturn] g [of WRand] show ?thesis
      by (simp add: worker_def completes_def derives_def)
  next
    case WRand
    show ?thesis
    proof (cases r)
      case RandErr
      with WRand True assms g [of WTop] show ?thesis
        by (simp add: worker_def completes_def derives_def)
    next
      case (RandOk randBuf)
      with WRand True assms g [of "WCount (newIdentity P randBuf)"] show ?thesis
        by (simp add: worker_def completes_def derives_def)
    next
      case RandFatal
      with WRand True assms g [of WFatal] show ?thesis
        by (simp add: worker_def completes_def derives_def)
    qed
  next
    case (WCount identity)
    let ?s = "s\<lparr>totalAttempts := totalAttempts s + 1\<rparr>"
    let ?m = "matchesPattern (prefixNibbles s) (postfixNibbles s) (Address identity)"
    let ?pc = "case ?m of Inl e \<Rightarrow> WPanic e | Inr True \<Rightarrow> WPublish identity | Inr False \<Rightarrow> WTop"
    have w: "worker P i r s = goto i ?pc ?s"
      using WCount True by (simp add: worker_def Let_def split: sum.splits bool.splits)
    have "case ?pc of WCount x \<Rightarrow> False | _ \<Rightarrow> True"
      by (simp split: sum.splits bool.splits)
    with in_flight_goto [of i ?s ?pc] True WCount assms show ?thesis
      unfolding w by (simp add: completes_def derives_def split: worker_pc.splits)
  next
    case (WPublish identity)
    have "in_flight (goto i WReturn (s\<lparr>resultChan := q\<rparr>)) = in_flight s" for q
      using in_flight_goto [of i "s\<lparr>resultChan := q\<rparr>" WReturn] True WPublish by simp
    with WPublish True assms g [of WReturn] show ?thesis
      by (simp add: worker_def completes_def derives_def)
  next
    case WReturn
    with True assms in_flight_goto [of i "s\<lparr>wg := wg s - 1\<rparr>" WDone] show ?thesis
      by (simp add: worker_def completes_def derives_def)
  next
    case WDone
    with True assms show ?thesis
      by (simp add: worker_def completes_def derives_def)
  next
    case (WPanic e)
    with True assms show ?thesis
      by (simp add: worker_def completes_def derives_def)
  next
    case WFatal
    with True assms show ?thesis
      by (simp add: worker_def completes_def derives_def)
  qed
qed

lemma ledger_step:
  "(if completes e s then 1 else 0) + in_flight (step P e s) =
   in_flight s + (if derives e s then 1 else 0)"
proof (cases "crashed s")
  case True
  then show ?thesis
    by (cases e) (simp_all add: step_def completes_def derives_def)
next
  case False
  show ?thesis
  proof (cases e)
    case Main
    with False show ?thesis
      by (simp add: step_def completes_def derives_def in_flight_main_step)
  next
    case (Worker i r)
    with False ledger_worker [OF False, of i r P] show ?thesis
      by (simp add: step_def)
  qed
qed

lemma ledger_run:
  "completed P sched s + in_flight (run P sched s) = in_flight s + derived P sched s"
proof (induction sched arbitrary: s)
  case Nil
  show ?case by simp
next
  case (Cons e es)
  from Cons.IH [of "step P e s"] ledger_step [of e s P] show ?case
    by simp
qed

lemma in_flight_init: "in_flight (init pre post n) = 0"
  by (simp add: in_flight_def init_def)

lemma in_flight_le: "in_flight s \<le> length (goroutines s)"
  by (simp add: in_flight_def)

lemma others_keep:
  assumes "turns i others = 0" and "i < length (goroutines s)"
  shows "goroutines (run P others s) ! i = goroutines s ! i \<and>
         i < length (goroutines (run P others s))"
  using assms
proof (induction others arbitrary: s)
  case Nil
  then show ?case by simp
next
  case (Cons e es)
  have t: "turns i [e] = 0" "turns i es = 0"
    using Cons.prems(1) turns_append [of i "[e]" es] by simp_all
  have k: "goroutines (step P e s) ! i = goroutines s ! i \<and> i < length (goroutines (step P e s))"
  proof (cases e)
    case Main
    with Cons.prems(2) show ?thesis
      by (cases "at_main s")
        (auto simp add: step_def main_step_def Let_def nth_append split: option.splits list.splits)
  next
    case (Worker j r)
    with t(1) have "j \<noteq> i"
      by (simp add: turns_Cons split: if_splits)
    with Worker Cons.prems(2) show ?thesis
      by (simp add: step_def worker_other [of i j])
  qed
  from Cons.IH [OF t(2), of "step P e s"] k show ?case
    by simp
qed

lemma count_step:
  assumes "\<not> crashed s" and "i < length (goroutines s)" and "goroutines s ! i = WCount identity"
  shows "totalAttempts (step P (Worker i r) s) = totalAttempts s + 1"
    and "matchesPattern (prefixNibbles s) (postfixNibbles s) (Address identity) = Inr True \<Longrightarrow>
           goroutines (step P (Worker i r) s) ! i = WPublish identity"
    and "matchesPattern (prefixNibbles s) (postfixNibbles s) (Address identity) = Inr False \<Longrightarrow>
           goroutines (step P (Worker i r) s) ! i = WTop"
proof -
  show "totalAttempts (step P (Worker i r) s) = totalAttempts s + 1"
    using assms by (simp add: step_def totalAttempts_worker)
  show "goroutines (step P (Worker i r) s) ! i = WPublish identity"
    if "matchesPattern (prefixNibbles s) (postfixNibbles s) (Address identity) = Inr True"
    using assms that by (simp add: step_def worker_def goroutines_goto Let_def)
  show "goroutines (step P (Worker i r) s) ! i = WTop"
    if "matchesPattern (prefixNibbles s) (postfixNibbles s) (Address identity) = Inr False"
    using assms that by (simp add: step_def worker_def goroutines_goto Let_def)
qed

lemma draw_step:
  assumes "\<not> crashed s" and "i < length (goroutines s)" and "goroutines s ! i = WRand"
    and "length randBuf = 64"
  shows "step P (Worker i (RandOk randBuf)) s = goto i (WCount (newIdentity P randBuf)) s"
    and "\<not> crashed (step P (Worker i (RandOk randBuf)) s)"
proof -
  show a: "step P (Worker i (RandOk randBuf)) s = goto i (WCount (newIdentity P randBuf)) s"
    using assms by (simp add: step_def worker_def)
  show "\<not> crashed (step P (Worker i (RandOk randBuf)) s)"
    unfolding a using assms(1) by (rule not_crashed_goto) simp_all
qed

lemma iteration_counts:
  assumes "\<not> crashed s" and "i < length (goroutines s)" and "goroutines s ! i = WRand"
    and "length randBuf = 64"
  shows "totalAttempts (run P [Worker i (RandOk randBuf), Worker i r] s) = totalAttempts s + 1"
    and "matchesPattern (prefixNibbles s) (postfixNibbles s) (Address (newIdentity P randBuf)) = Inr True \<Longrightarrow>
           goroutines (run P [Worker i (RandOk randBuf), Worker i r] s) ! i =
             WPublish (newIdentity P randBuf)"
    and "matchesPattern (prefixNibbles s) (postfixNibbles s) (Address (newIdentity P randBuf)) = Inr False \<Longrightarrow>
           goroutines (run P [Worker i (RandOk randBuf), Worker i r] s) ! i = WTop"
proof -
  let ?t = "step P (Worker i (RandOk randBuf)) s"
  note d = draw_step [OF assms, of P]
  have p: "i < length (goroutines ?t)" "goroutines ?t ! i = WCount (newIdentity P randBuf)"
    "prefixNibbles ?t = prefixNibbles s" "postfixNibbles ?t = postfixNibbles s"
    "totalAttempts ?t = totalAttempts s"
    unfolding d(1) using assms(2) by (simp_all add: goroutines_goto)
  note c = count_step [OF d(2) p(1,2), of P r, unfolded p]
  show "totalAttempts (run P [Worker i (RandOk randBuf), Worker i r] s) = totalAttempts s + 1"
    using c(1) by simp
  show "goroutines (run P [Worker i (RandOk randBuf), Worker i r] s) ! i =
             WPublish (newIdentity P randBuf)"
    if "matchesPattern (prefixNibbles s) (postfixNibbles s) (Address (newIdentity P randBuf)) = Inr True"
    using c(2) [OF that] by simp
  show "goroutines (run P [Worker i (RandOk randBuf), Worker i r] s) ! i = WTop"
    if "matchesPattern (prefixNibbles s) (postfixNibbles s) (Address (newIdentity P randBuf)) = Inr False"
    using c(3) [OF that] by simp
qed

lemma run_race5:
  "run toy (take 5 race) (init (bytes_of ''1'') [] 2) =
     \<lparr>prefix = [49], postfix = [], workers = 2, prefixNibbles = [1], postfixNibbles = [],
      totalAttempts = 0, found = 0, resultChan = [], wg = 2, at_main = MRecv,
      goroutines = [WRand, WTop]\<rparr>"
  by (simp add: race_def init_def bytes_of_def eval_step)

lemma run_race9:
  "run toy (take 9 race) (init (bytes_of ''1'') [] 2) =
     \<lparr>prefix = [49], postfix = [], workers = 2, prefixNibbles = [1], postfixNibbles = [],
      totalAttempts = 1, found = 0, resultChan = [], wg = 2, at_main = MRecv,
      goroutines = [WPublish (newIdentity toy (replicate 64 1)),
                    WCount (newIdentity toy (replicate 64 2))]\<rparr>"
  by (simp add: race_def init_def bytes_of_def eval_step)

lemma derived_race9: "derived toy (take 9 race) (init (bytes_of ''1'') [] 2) = 2"
  by (simp add: race_def init_def bytes_of_def eval_step derives_def)

text \<open>
  Claim C7 as stated fails at the width of the counter.  One worker whose addresses never
  match completes iteration after iteration; after \<open>2^64 - 1\<close> iterations the counter is
  \<open>2^64 - 1\<close>, and the next iteration takes it to 0.
\<close>

theorem totalAttempts_wraps:
  "unat (totalAttempts (run toy (boot1 @ concat (replicate (2 ^ 64 - 1) spin))
                          (init (bytes_of ''f'') [] 1))) = 2 ^ 64 - 1 \<and>
   unat (totalAttempts (run toy (boot1 @ concat (replicate (2 ^ 64 - 1) spin) @ spin)
                          (init (bytes_of ''f'') [] 1))) = 0"
proof -
  have a: "concat (replicate (2 ^ 64 - 1) spin) @ spin = concat (replicate (Suc (2 ^ 64 - 1)) spin)"
    by (rule concat_replicate_Suc)
  have b: "Suc (2 ^ 64 - 1) = (2 ^ 64 :: nat)"
    by simp
  have c: "unat (of_nat (2 ^ 64 - 1) :: 64 word) = 2 ^ 64 - 1"
    by (rule unat_of_nat64) simp
  have d: "(of_nat (2 ^ 64) :: 64 word) = 0"
    by simp
  show ?thesis
    unfolding a b run_boot1_spins c d by simp
qed

text \<open>
  Claim C7, amended.  An iteration of a worker that reads its random bytes derives an
  identity from them, and the next step of that worker, which no other goroutine can take
  from it, adds exactly one to \<open>totalAttempts\<close>, in 64-bit arithmetic, whether the address
  matches, and the worker goes on to its \<open>select\<close>, or not, and it goes back to the top of
  its loop.  No other step changes the counter.  So in every execution from the initial
  state the iterations counted so far and those derived but not yet counted, at most one
  for each worker, add up to the successful reads so far, and the counter is the number of
  iterations counted modulo \<open>2^64\<close>.  As long as fewer than \<open>2^64\<close> iterations have been
  counted, the counter equals their number and never decreases along an execution.
\<close>

theorem totalAttempts_counts:
  "totalAttempts (step P e s) = (if completes e s then totalAttempts s + 1 else totalAttempts s) \<and>
   totalAttempts (run P sched (init pre post n)) = of_nat (completed P sched (init pre post n)) \<and>
   (completed P (xs @ ys) (init pre post n) < 2 ^ 64 \<longrightarrow>
      unat (totalAttempts (run P xs (init pre post n))) = completed P xs (init pre post n) \<and>
      unat (totalAttempts (run P (xs @ ys) (init pre post n))) =
        completed P (xs @ ys) (init pre post n) \<and>
      unat (totalAttempts (run P xs (init pre post n))) \<le>
        unat (totalAttempts (run P (xs @ ys) (init pre post n)))) \<and>
   completed P sched (init pre post n) + in_flight (run P sched (init pre post n)) =
     derived P sched (init pre post n) \<and>
   in_flight (run P sched (init pre post n)) \<le> length (goroutines (run P sched (init pre post n))) \<and>
   (\<not> crashed s \<and> i < length (goroutines s) \<and> goroutines s ! i = WRand \<and> length randBuf = 64 \<longrightarrow>
      goroutines (step P (Worker i (RandOk randBuf)) s) ! i = WCount (newIdentity P randBuf) \<and>
      totalAttempts (run P [Worker i (RandOk randBuf), Worker i r] s) = totalAttempts s + 1 \<and>
      (matchesPattern (prefixNibbles s) (postfixNibbles s) (Address (newIdentity P randBuf)) = Inr True \<longrightarrow>
         goroutines (run P [Worker i (RandOk randBuf), Worker i r] s) ! i =
           WPublish (newIdentity P randBuf)) \<and>
      (matchesPattern (prefixNibbles s) (postfixNibbles s) (Address (newIdentity P randBuf)) = Inr False \<longrightarrow>
         goroutines (run P [Worker i (RandOk randBuf), Worker i r] s) ! i = WTop)) \<and>
   (\<not> crashed s \<and> i < length (goroutines s) \<and> goroutines s ! i = WCount identity \<longrightarrow>
      totalAttempts (step P (Worker i r) s) = totalAttempts s + 1 \<and>
      (matchesPattern (prefixNibbles s) (postfixNibbles s) (Address identity) = Inr True \<longrightarrow>
         goroutines (step P (Worker i r) s) ! i = WPublish identity) \<and>
      (matchesPattern (prefixNibbles s) (postfixNibbles s) (Address identity) = Inr False \<longrightarrow>
         goroutines (step P (Worker i r) s) ! i = WTop)) \<and>
   (turns i others = 0 \<and> i < length (goroutines s) \<longrightarrow>
      goroutines (run P others s) ! i = goroutines s ! i)"
proof -
  have z: "totalAttempts (init pre post n) = 0"
    by (simp add: init_def)
  have r: "totalAttempts (run P sched (init pre post n)) = of_nat (completed P sched (init pre post n))"
    for sched
    by (simp add: totalAttempts_run z)
  have m: "unat (totalAttempts (run P xs (init pre post n))) = completed P xs (init pre post n) \<and>
      unat (totalAttempts (run P (xs @ ys) (init pre post n))) =
        completed P (xs @ ys) (init pre post n) \<and>
      unat (totalAttempts (run P xs (init pre post n))) \<le>
        unat (totalAttempts (run P (xs @ ys) (init pre post n)))"
    if b: "completed P (xs @ ys) (init pre post n) < 2 ^ 64"
  proof -
    have l: "completed P xs (init pre post n) \<le> completed P (xs @ ys) (init pre post n)"
      by (simp add: completed_append)
    with b have b': "completed P xs (init pre post n) < 2 ^ 64"
      by simp
    show ?thesis
      unfolding r unat_of_nat64 [OF b] unat_of_nat64 [OF b'] using l by simp
  qed
  have l: "completed P sched (init pre post n) + in_flight (run P sched (init pre post n)) =
      derived P sched (init pre post n)"
    using ledger_run [of P sched "init pre post n"] by (simp add: in_flight_init)
  have f: "in_flight (run P sched (init pre post n)) \<le> length (goroutines (run P sched (init pre post n)))"
    by (rule in_flight_le)
  have d: "goroutines (step P (Worker i (RandOk randBuf)) s) ! i = WCount (newIdentity P randBuf)"
    if "\<not> crashed s" "i < length (goroutines s)" "goroutines s ! i = WRand" "length randBuf = 64"
    using that by (simp add: draw_step(1) goroutines_goto)
  have it: "\<not> crashed s \<and> i < length (goroutines s) \<and> goroutines s ! i = WRand \<and> length randBuf = 64 \<longrightarrow>
      goroutines (step P (Worker i (RandOk randBuf)) s) ! i = WCount (newIdentity P randBuf) \<and>
      totalAttempts (run P [Worker i (RandOk randBuf), Worker i r] s) = totalAttempts s + 1 \<and>
      (matchesPattern (prefixNibbles s) (postfixNibbles s) (Address (newIdentity P randBuf)) = Inr True \<longrightarrow>
         goroutines (run P [Worker i (RandOk randBuf), Worker i r] s) ! i =
           WPublish (newIdentity P randBuf)) \<and>
      (matchesPattern (prefixNibbles s) (postfixNibbles s) (Address (newIdentity P randBuf)) = Inr False \<longrightarrow>
         goroutines (run P [Worker i (RandOk randBuf), Worker i r] s) ! i = WTop)"
    using d iteration_counts [of s i randBuf P r] by blast
  have ct: "\<not> crashed s \<and> i < length (goroutines s) \<and> goroutines s ! i = WCount identity \<longrightarrow>
      totalAttempts (step P (Worker i r) s) = totalAttempts s + 1 \<and>
      (matchesPattern (prefixNibbles s) (postfixNibbles s) (Address identity) = Inr True \<longrightarrow>
         goroutines (step P (Worker i r) s) ! i = WPublish identity) \<and>
      (matchesPattern (prefixNibbles s) (postfixNibbles s) (Address identity) = Inr False \<longrightarrow>
         goroutines (step P (Worker i r) s) ! i = WTop)"
    using count_step [of s i identity P r] by blast
  have ot: "turns i others = 0 \<and> i < length (goroutines s) \<longrightarrow>
      goroutines (run P others s) ! i = goroutines s ! i"
    using others_keep [of i others s P] by blast
  have m': "completed P (xs @ ys) (init pre post n) < 2 ^ 64 \<longrightarrow>
      unat (totalAttempts (run P xs (init pre post n))) = completed P xs (init pre post n) \<and>
      unat (totalAttempts (run P (xs @ ys) (init pre post n))) =
        completed P (xs @ ys) (init pre post n) \<and>
      unat (totalAttempts (run P xs (init pre post n))) \<le>
        unat (totalAttempts (run P (xs @ ys) (init pre post n)))"
    using m by blast
  note s = totalAttempts_step [of P e s]
  note r' = r [of sched]
  show ?thesis
    by (intro conjI) (rule s r' m' l f it ct ot)+
qed

theorem totalAttempts_counts_witness:
  "completes (Worker 0 RandErr) (run toy (boot1 @ take 2 spin) (init (bytes_of ''f'') [] 1)) \<and>
   totalAttempts (run toy (boot1 @ take 2 spin) (init (bytes_of ''f'') [] 1)) = 0 \<and>
   totalAttempts (step toy (Worker 0 RandErr)
                   (run toy (boot1 @ take 2 spin) (init (bytes_of ''f'') [] 1))) = 1 \<and>
   completed toy (boot1 @ spin @ spin) (init (bytes_of ''f'') [] 1) < 2 ^ 64 \<and>
   unat (totalAttempts (run toy (boot1 @ spin) (init (bytes_of ''f'') [] 1))) = 1 \<and>
   unat (totalAttempts (run toy (boot1 @ spin @ spin) (init (bytes_of ''f'') [] 1))) = 2 \<and>
   unat (totalAttempts (run toy (boot1 @ spin) (init (bytes_of ''f'') [] 1))) \<le>
     unat (totalAttempts (run toy (boot1 @ spin @ spin) (init (bytes_of ''f'') [] 1))) \<and>
   goroutines (run toy (take 5 race) (init (bytes_of ''1'') [] 2)) ! 0 = WRand \<and>
   totalAttempts (run toy (take 5 race) (init (bytes_of ''1'') [] 2)) = 0 \<and>
   matchesPattern [1] [] (Address (newIdentity toy (replicate 64 1))) = Inr True \<and>
   totalAttempts (run toy [Worker 0 (RandOk (replicate 64 1)), Worker 0 RandErr]
                    (run toy (take 5 race) (init (bytes_of ''1'') [] 2))) = 1 \<and>
   goroutines (run toy [Worker 0 (RandOk (replicate 64 1)), Worker 0 RandErr]
                 (run toy (take 5 race) (init (bytes_of ''1'') [] 2))) ! 0 =
     WPublish (newIdentity toy (replicate 64 1)) \<and>
   goroutines s_rand1 ! 0 = WRand \<and> totalAttempts s_rand1 = 0 \<and>
   matchesPattern [15] [] (Address (newIdentity toy (replicate 64 0))) = Inr False \<and>
   totalAttempts (run toy [Worker 0 (RandOk (replicate 64 0)), Worker 0 RandErr] s_rand1) = 1 \<and>
   goroutines (run toy [Worker 0 (RandOk (replicate 64 0)), Worker 0 RandErr] s_rand1) ! 0 = WTop \<and>
   derived toy (take 9 race) (init (bytes_of ''1'') [] 2) = 2 \<and>
   in_flight (run toy (take 9 race) (init (bytes_of ''1'') [] 2)) = 1 \<and>
   completed toy (take 9 race) (init (bytes_of ''1'') [] 2) = 1 \<and>
   totalAttempts (run toy (take 9 race) (init (bytes_of ''1'') [] 2)) = 1"
proof -
  let ?i = "init (bytes_of ''f'') [] 1"
  let ?j = "init (bytes_of ''1'') [] 2"
  let ?s = "run toy (boot1 @ take 2 spin) ?i"
  let ?m = "run toy (take 5 race) ?j"
  have s: "?s = goto 0 (WCount (newIdentity toy (replicate 64 0))) s_top"
    unfolding run_append run_boot1 by (simp add: spin_def s_top_def eval_step)
  have c: "completes (Worker 0 RandErr) ?s"
    unfolding s by (simp add: completes_def crashed_def goto_def s_top_def)
  have z: "totalAttempts ?s = 0"
    unfolding s by (simp add: s_top_def)
  have "completed toy (boot1 @ spin @ spin) ?i \<le> length (boot1 @ spin @ spin)"
    by (rule completed_le_length)
  then have b: "completed toy (boot1 @ spin @ spin) ?i < 2 ^ 64"
    by (simp add: boot1_def spin_def)
  have r: "concat (replicate 1 spin) = spin" "concat (replicate 2 spin) = spin @ spin"
    by (simp_all add: numeral_2_eq_2)
  have "totalAttempts (run toy (boot1 @ spin) ?i) = 1"
    "totalAttempts (run toy (boot1 @ spin @ spin) ?i) = 2"
    using run_boot1_spins [of 1] run_boot1_spins [of 2] unfolding r by simp_all
  then have v: "unat (totalAttempts (run toy (boot1 @ spin) ?i)) = 1"
    "unat (totalAttempts (run toy (boot1 @ spin @ spin) ?i)) = 2"
    by simp_all
  note t = totalAttempts_counts [where P = toy and e = "Worker 0 RandErr" and s = ?s
      and sched = "[]" and pre = "bytes_of ''f''" and post = "[]" and n = 1
      and xs = "boot1 @ spin" and ys = spin, unfolded append_assoc]
  from t c have "totalAttempts (step toy (Worker 0 RandErr) ?s) = totalAttempts ?s + 1"
    by presburger
  then have 1: "totalAttempts (step toy (Worker 0 RandErr) ?s) = 1"
    unfolding z by simp
  from t b have 2: "unat (totalAttempts (run toy (boot1 @ spin) ?i)) \<le>
     unat (totalAttempts (run toy (boot1 @ spin @ spin) ?i))"
    by blast
  have pm: "\<not> crashed ?m" "0 < length (goroutines ?m)" "goroutines ?m ! 0 = WRand"
    "totalAttempts ?m = 0" "prefixNibbles ?m = [1]" "postfixNibbles ?m = []"
    by (simp_all add: run_race5 crashed_def)
  have k: "matchesPattern [1] [] (Address (newIdentity toy (replicate 64 1))) = Inr True"
    "matchesPattern [15] [] (Address (newIdentity toy (replicate 64 0))) = Inr False"
    by (simp_all add: matches_toy)
  note tm = totalAttempts_counts [where P = toy and s = ?m and i = 0
      and randBuf = "replicate 64 1" and r = RandErr, unfolded pm(4-6)]
  from tm pm(1-3) k(1)
  have 3: "totalAttempts (run toy [Worker 0 (RandOk (replicate 64 1)), Worker 0 RandErr] ?m) = 0 + 1"
    "goroutines (run toy [Worker 0 (RandOk (replicate 64 1)), Worker 0 RandErr] ?m) ! 0 =
       WPublish (newIdentity toy (replicate 64 1))"
    by simp_all
  have pf: "\<not> crashed s_rand1" "0 < length (goroutines s_rand1)" "goroutines s_rand1 ! 0 = WRand"
    "totalAttempts s_rand1 = 0" "prefixNibbles s_rand1 = [15]" "postfixNibbles s_rand1 = []"
    by (simp_all add: s_rand1_eq s_top_def goto_def crashed_def)
  note tf = totalAttempts_counts [where P = toy and s = s_rand1 and i = 0
      and randBuf = "replicate 64 0" and r = RandErr, unfolded pf(4-6)]
  from tf pf(1-3) k(2)
  have 4: "totalAttempts (run toy [Worker 0 (RandOk (replicate 64 0)), Worker 0 RandErr] s_rand1) = 0 + 1"
    "goroutines (run toy [Worker 0 (RandOk (replicate 64 0)), Worker 0 RandErr] s_rand1) ! 0 = WTop"
    by simp_all
  have q: "derived toy (take 9 race) ?j = 2" "in_flight (run toy (take 9 race) ?j) = 1"
    "totalAttempts (run toy (take 9 race) ?j) = 1"
    by (simp_all add: derived_race9 run_race9 in_flight_def)
  from totalAttempts_counts [where P = toy and sched = "take 9 race" and pre = "bytes_of ''1''"
      and post = "[]" and n = 2]
  have "completed toy (take 9 race) ?j + in_flight (run toy (take 9 race) ?j) =
      derived toy (take 9 race) ?j"
    by blast
  then have 5: "completed toy (take 9 race) ?j = 1"
    unfolding q by simp
  note all = c z b 1 2 v pm(3,4) k 3 pf(3,4) 4 q 5
  show ?thesis
    by (intro conjI) (simp_all only: all add_0)
qed

section \<open>Failure of the random source\<close>

lemma retry_once:
  assumes "\<not> crashed s" and "i < length (goroutines s)" and "goroutines s ! i = WRand"
    and "found s \<noteq> 1"
  shows "run P [Worker i RandErr, Worker i r] s = s"
proof -
  have a: "step P (Worker i RandErr) s = goto i WTop s"
    using assms by (simp add: step_def worker_def)
  have c: "\<not> crashed (goto i WTop s)"
    using assms(1) by (rule not_crashed_goto) simp_all
  have "step P (Worker i r) (goto i WTop s) = goto i WRand (goto i WTop s)"
    using assms c by (simp add: step_def worker_def goroutines_goto)
  also have "\<dots> = s"
  proof -
    have "(goroutines s)[i := WRand] = goroutines s"
      using assms(3) list_update_id [of "goroutines s" i] by simp
    then show ?thesis
      by (simp add: goto_def)
  qed
  finally show ?thesis
    by (simp add: a)
qed

lemma retry_forever:
  assumes "\<not> crashed s" and "i < length (goroutines s)" and "goroutines s ! i = WRand"
    and "found s \<noteq> 1"
  shows "run P (concat (replicate k [Worker i RandErr, Worker i r])) s = s"
proof (induction k)
  case 0
  show ?case by simp
next
  case (Suc k)
  have "run P (concat (replicate (Suc k) [Worker i RandErr, Worker i r])) s =
        run P (concat (replicate k [Worker i RandErr, Worker i r]))
          (run P [Worker i RandErr, Worker i r] s)"
    by simp
  then show ?case
    unfolding retry_once [OF assms] Suc.IH .
qed

lemma crashed_run: "crashed s \<Longrightarrow> run P later s = s"
  by (induction later) (simp_all add: step_def)

lemma read_step:
  assumes "\<not> crashed s" and "i < length (goroutines s)" and "goroutines s ! i = WRand"
  shows "goroutines (step P (Worker i r) s) ! i = WTop \<longleftrightarrow> r = RandErr"
  using assms by (cases r) (simp_all add: step_def worker_def goroutines_goto)

text \<open>
  Claim C3 as stated fails wherever \<open>rand.Read\<close> reports the failure of the random source
  by returning an error, as it does up to Go 1.23: the failed draw is neither fatal nor
  reported.  After a failed \<open>rand.Read\<close> and the next load of \<open>found\<close> the whole state is
  what it was before the draw, with the worker before \<open>rand.Read\<close> again; a million failed
  draws in a row leave it there.
\<close>

theorem rand_failure_silent:
  "goroutines (run toy [Main, Main, Main, Worker 0 RandErr] (init (bytes_of ''f'') [] 1)) = [WRand] \<and>
   \<not> crashed (run toy [Main, Main, Main, Worker 0 RandErr] (init (bytes_of ''f'') [] 1)) \<and>
   run toy [Main, Main, Main, Worker 0 RandErr, Worker 0 RandErr, Worker 0 RandErr]
     (init (bytes_of ''f'') [] 1) =
   run toy [Main, Main, Main, Worker 0 RandErr] (init (bytes_of ''f'') [] 1) \<and>
   run toy ([Main, Main, Main, Worker 0 RandErr] @
            concat (replicate 1000000 [Worker 0 RandErr, Worker 0 RandErr]))
     (init (bytes_of ''f'') [] 1) =
   run toy [Main, Main, Main, Worker 0 RandErr] (init (bytes_of ''f'') [] 1)"
proof -
  have p: "\<not> crashed s_rand1" "0 < length (goroutines s_rand1)" "goroutines s_rand1 ! 0 = WRand"
    "found s_rand1 \<noteq> 1" "goroutines s_rand1 = [WRand]"
    by (simp_all add: s_rand1_eq s_top_def goto_def crashed_def)
  have a: "run toy [Worker 0 RandErr, Worker 0 RandErr] s_rand1 = s_rand1"
    using p(1-4) by (rule retry_once)
  have b: "run toy (concat (replicate 1000000 [Worker 0 RandErr, Worker 0 RandErr])) s_rand1 = s_rand1"
    using p(1-4) by (rule retry_forever)
  have c: "run toy [Main, Main, Main, Worker 0 RandErr, Worker 0 RandErr, Worker 0 RandErr]
     (init (bytes_of ''f'') [] 1) = run toy [Worker 0 RandErr, Worker 0 RandErr] s_rand1"
    unfolding s_rand1_def run_append [symmetric] by simp
  show ?thesis
    unfolding run_append c unfolding s_rand1_def [symmetric] using p a b by simp
qed

text \<open>
  Claim C3, amended.  What a failure of the random source does to the search is decided by
  \<open>rand.Read\<close>, and the worker handles only what \<open>rand.Read\<close> returns.

  Where \<open>rand.Read\<close> returns an error, the worker does not go on with that draw: it derives
  no key, counts no attempt, publishes nothing, does not return and is not stopped; it
  goes back to the top of its loop, and it does so for no other outcome of the read.
  While \<open>found\<close> is not set it draws again, any number of times when the draws keep
  failing; once \<open>found\<close> is set it returns.

  Where \<open>rand.Read\<close> ends the process instead, as it does from Go 1.24 on, the failure is
  fatal: the worker is stopped inside the read, and no goroutine takes another step.
\<close>

theorem rand_failure_retried:
  assumes "\<not> crashed s" and "i < length (goroutines s)" and "goroutines s ! i = WRand"
  shows "step P (Worker i RandErr) s = goto i WTop s \<and>
         goroutines (step P (Worker i RandErr) s) ! i = WTop \<and>
         totalAttempts (step P (Worker i RandErr) s) = totalAttempts s \<and>
         resultChan (step P (Worker i RandErr) s) = resultChan s \<and>
         wg (step P (Worker i RandErr) s) = wg s \<and>
         at_main (step P (Worker i RandErr) s) = at_main s \<and>
         \<not> crashed (step P (Worker i RandErr) s) \<and>
         (found s \<noteq> 1 \<longrightarrow>
            run P (concat (replicate k [Worker i RandErr, Worker i r])) s = s) \<and>
         (found s = 1 \<longrightarrow>
            run P [Worker i RandErr, Worker i r] s = goto i WReturn s) \<and>
         (goroutines (step P (Worker i r') s) ! i = WTop \<longleftrightarrow> r' = RandErr) \<and>
         step P (Worker i RandFatal) s = goto i WFatal s \<and>
         crashed (step P (Worker i RandFatal) s) \<and>
         run P later (step P (Worker i RandFatal) s) = step P (Worker i RandFatal) s"
proof -
  have a: "step P (Worker i RandErr) s = goto i WTop s"
    using assms by (simp add: step_def worker_def)
  have c: "\<not> crashed (goto i WTop s)"
    using assms(1) by (rule not_crashed_goto) simp_all
  have d: "run P [Worker i RandErr, Worker i r] s = goto i WReturn s" if "found s = 1"
  proof -
    have "step P (Worker i r) (goto i WTop s) = goto i WReturn (goto i WTop s)"
      using assms c that by (simp add: step_def worker_def goroutines_goto)
    then show ?thesis
      by (simp add: a goto_def)
  qed
  have e: "run P (concat (replicate k [Worker i RandErr, Worker i r])) s = s" if "found s \<noteq> 1"
    using assms that by (rule retry_forever)
  have f: "goroutines (step P (Worker i r') s) ! i = WTop \<longleftrightarrow> r' = RandErr"
    using assms by (rule read_step)
  have g: "step P (Worker i RandFatal) s = goto i WFatal s"
    using assms by (simp add: step_def worker_def)
  have h: "crashed (step P (Worker i RandFatal) s)"
    unfolding g using assms(2) by (rule crashed_goto_WFatal)
  then have j: "run P later (step P (Worker i RandFatal) s) = step P (Worker i RandFatal) s"
    by (rule crashed_run)
  have "step P (Worker i RandErr) s = goto i WTop s \<and>
         goroutines (step P (Worker i RandErr) s) ! i = WTop \<and>
         totalAttempts (step P (Worker i RandErr) s) = totalAttempts s \<and>
         resultChan (step P (Worker i RandErr) s) = resultChan s \<and>
         wg (step P (Worker i RandErr) s) = wg s \<and>
         at_main (step P (Worker i RandErr) s) = at_main s \<and>
         \<not> crashed (step P (Worker i RandErr) s) \<and>
         (found s \<noteq> 1 \<longrightarrow>
            run P (concat (replicate k [Worker i RandErr, Worker i r])) s = s) \<and>
         (found s = 1 \<longrightarrow>
            run P [Worker i RandErr, Worker i r] s = goto i WReturn s)"
    unfolding a using assms(2) c d e by (simp add: goroutines_goto)
  with f g h j show ?thesis
    by blast
qed

theorem rand_failure_retried_witness:
  "\<not> crashed s_rand1 \<and> goroutines s_rand1 ! 0 = WRand \<and> found s_rand1 \<noteq> 1 \<and>
   goroutines (step toy (Worker 0 RandErr) s_rand1) ! 0 = WTop \<and>
   totalAttempts (step toy (Worker 0 RandErr) s_rand1) = 0 \<and>
   run toy (concat (replicate 7 [Worker 0 RandErr, Worker 0 (RandOk [])])) s_rand1 = s_rand1 \<and>
   run toy [Worker 0 RandErr, Worker 0 RandErr] (s_rand1\<lparr>found := 1\<rparr>) = goto 0 WReturn (s_rand1\<lparr>found := 1\<rparr>) \<and>
   goroutines (step toy (Worker 0 (RandOk (replicate 64 0))) s_rand1) ! 0 \<noteq> WTop \<and>
   goroutines (step toy (Worker 0 RandFatal) s_rand1) = [WFatal] \<and>
   crashed (step toy (Worker 0 RandFatal) s_rand1) \<and>
   run toy [Main, Worker 0 (RandOk (replicate 64 0)), Worker 0 RandErr]
     (step toy (Worker 0 RandFatal) s_rand1) = step toy (Worker 0 RandFatal) s_rand1"
proof -
  have p: "\<not> crashed s_rand1" "0 < length (goroutines s_rand1)" "goroutines s_rand1 ! 0 = WRand"
    "found s_rand1 \<noteq> 1" "totalAttempts s_rand1 = 0"
    by (simp_all add: s_rand1_eq s_top_def goto_def crashed_def)
  have q: "\<not> crashed (s_rand1\<lparr>found := 1\<rparr>)" "0 < length (goroutines (s_rand1\<lparr>found := 1\<rparr>))"
    "goroutines (s_rand1\<lparr>found := 1\<rparr>) ! 0 = WRand" "found (s_rand1\<lparr>found := 1\<rparr>) = 1"
    by (simp_all add: s_rand1_eq s_top_def goto_def crashed_def)
  note t = rand_failure_retried [OF p(1-3), where P = toy and k = 7 and r = "RandOk []"
      and r' = "RandOk (replicate 64 0)"
      and later = "[Main, Worker 0 (RandOk (replicate 64 0)), Worker 0 RandErr]"]
  from t have a1: "goroutines (step toy (Worker 0 RandErr) s_rand1) ! 0 = WTop"
    by blast
  from t have "totalAttempts (step toy (Worker 0 RandErr) s_rand1) = totalAttempts s_rand1"
    by blast
  then have a2: "totalAttempts (step toy (Worker 0 RandErr) s_rand1) = 0"
    by (simp only: p(5))
  from t p(4) have a3:
    "run toy (concat (replicate 7 [Worker 0 RandErr, Worker 0 (RandOk [])])) s_rand1 = s_rand1"
    by blast
  from t have a4: "goroutines (step toy (Worker 0 (RandOk (replicate 64 0))) s_rand1) ! 0 \<noteq> WTop"
    by simp
  from t have "step toy (Worker 0 RandFatal) s_rand1 = goto 0 WFatal s_rand1"
    by blast
  then have a5: "goroutines (step toy (Worker 0 RandFatal) s_rand1) = [WFatal]"
    by (simp add: s_rand1_eq s_top_def goto_def)
  from t have a6: "crashed (step toy (Worker 0 RandFatal) s_rand1)"
    "run toy [Main, Worker 0 (RandOk (replicate 64 0)), Worker 0 RandErr]
       (step toy (Worker 0 RandFatal) s_rand1) = step toy (Worker 0 RandFatal) s_rand1"
    by blast+
  note a = a1 a2 a3 a4 a5 a6
  from rand_failure_retried [OF q(1-3), where P = toy and k = 7 and r = RandErr] q(4)
  have b: "run toy [Worker 0 RandErr, Worker 0 RandErr] (s_rand1\<lparr>found := 1\<rparr>) =
             goto 0 WReturn (s_rand1\<lparr>found := 1\<rparr>)"
    by blast
  from p a b show ?thesis
    by blast
qed

section \<open>Invariants of the search\<close>

lemma pending_goto_same:
  assumes "i < length (goroutines s)" and "goroutines s ! i \<noteq> WDone" and "pc \<noteq> WDone"
  shows "pending (goto i pc s) = pending s"
  using filter_update_count [OF assms(1), of "\<lambda>pc. pc \<noteq> WDone" pc] assms(2,3)
  by (simp add: pending_def goto_def)

lemma pending_goto_done:
  assumes "i < length (goroutines s)" and "goroutines s ! i \<noteq> WDone"
  shows "int (pending (goto i WDone s)) = int (pending s) - 1"
  using filter_update_count [OF assms(1), of "\<lambda>pc. pc \<noteq> WDone" WDone] assms(2)
  by (simp add: pending_def goto_def)

lemma pending_0_iff: "pending s = 0 \<longleftrightarrow> (\<forall>pc\<in>set (goroutines s). pc = WDone)"
  by (auto simp add: pending_def filter_empty_conv)

lemma pending_fields [simp]:
  "pending (s\<lparr>totalAttempts := c\<rparr>) = pending s"
  "pending (s\<lparr>resultChan := q\<rparr>) = pending s"
  "pending (s\<lparr>wg := w\<rparr>) = pending s"
  "pending (s\<lparr>at_main := m\<rparr>) = pending s"
  "pending (s\<lparr>found := f\<rparr>) = pending s"
  "pending (s\<lparr>prefix := p\<rparr>) = pending s"
  "pending (s\<lparr>postfix := p\<rparr>) = pending s"
  "pending (s\<lparr>prefixNibbles := p\<rparr>) = pending s"
  "pending (s\<lparr>postfixNibbles := p\<rparr>) = pending s"
  by (simp_all add: pending_def)

lemma live_not_all_done:
  "i < length xs \<Longrightarrow> xs ! i \<noteq> WDone \<Longrightarrow> \<not> (\<forall>pc\<in>set xs. pc = WDone)"
  using nth_mem by blast

lemma inv_init: "search_inv (init pre post n)"
  by (simp add: search_inv_def init_def pending_def)

lemma inv_main_step:
  assumes "search_inv s"
  shows "search_inv (main_step s)"
proof (cases "at_main s")
  case MStart
  show ?thesis
  proof (cases "validateInputs (prefix s) (postfix s) (workers s)")
    case None
    then have "1 \<le> workers s"
      by (simp add: validateInputs_None_iff)
    with assms MStart main_step_MStart_fields [OF MStart None] show ?thesis
      by (simp add: search_inv_def pending_def)
  next
    case (Some err)
    with assms MStart show ?thesis
      by (simp add: search_inv_def main_step_def)
  qed
next
  case (MSpawn i)
  with assms show ?thesis
    by (simp add: search_inv_def main_step_def pending_def)
next
  case MRecv
  with assms show ?thesis
    by (cases "resultChan s") (simp_all add: search_inv_def main_step_def)
next
  case (MStore identity)
  with assms show ?thesis
    by (simp add: search_inv_def main_step_def)
next
  case (MWait identity)
  with assms show ?thesis
    by (simp add: search_inv_def main_step_def pending_0_iff [symmetric])
next
  case (MDone identity)
  with assms show ?thesis
    by (simp add: search_inv_def main_step_def)
next
  case (MExit err)
  with assms show ?thesis
    by (simp add: search_inv_def main_step_def)
qed

lemma inv_goto_live:
  assumes "search_inv s" and "i < length (goroutines s)" and "goroutines s ! i \<noteq> WDone" and "pc \<noteq> WDone"
  shows "search_inv (goto i pc s)"
proof -
  have p: "pending (goto i pc s) = pending s"
    using assms(2-4) by (rule pending_goto_same)
  have n: "goroutines s \<noteq> []"
    using assms(2) by auto
  have d: "\<not> (\<forall>pc\<in>set (goroutines s). pc = WDone)"
    using assms(2,3) by (metis nth_mem)
  show ?thesis
    using assms(1) n d
    by (cases "at_main s") (simp_all add: search_inv_def p)
qed

lemma inv_change_live:
  assumes "search_inv s" and "goroutines s \<noteq> []" and "\<not> (\<forall>pc\<in>set (goroutines s). pc = WDone)"
  shows "search_inv (s\<lparr>totalAttempts := c\<rparr>)"
    and "length q \<le> 1 \<Longrightarrow> search_inv (s\<lparr>resultChan := q\<rparr>)"
  using assms by (cases "at_main s"; simp add: search_inv_def)+

lemma inv_worker:
  assumes "search_inv s"
  shows "search_inv (worker P i r s)"
proof (cases "i < length (goroutines s)")
  case False
  then show ?thesis
    using assms by (simp add: worker_def)
next
  case True
  then have n: "goroutines s \<noteq> []"
    by auto
  from True show ?thesis
  proof (cases rule: worker_cases [where P = P and r = r])
    case top
    with assms True show ?thesis
      by (simp add: inv_goto_live)
  next
    case rand_err
    with assms True show ?thesis
      by (simp add: inv_goto_live)
  next
    case (rand_ok randBuf)
    with assms True show ?thesis
      by (simp add: inv_goto_live)
  next
    case rand_fatal
    with assms True show ?thesis
      by (simp add: inv_goto_live)
  next
    case (count identity pc)
    have d: "\<not> (\<forall>pc\<in>set (goroutines s). pc = WDone)"
      using True count(1) live_not_all_done [of i "goroutines s"] by simp
    have "search_inv (s\<lparr>totalAttempts := totalAttempts s + 1\<rparr>)"
      using assms n d by (rule inv_change_live)
    moreover have "pc \<noteq> WDone"
      using count(2) by auto
    ultimately show ?thesis
      unfolding count(3) using True count(1) by (simp add: inv_goto_live)
  next
    case (publish identity)
    have d: "\<not> (\<forall>pc\<in>set (goroutines s). pc = WDone)"
      using True publish(1) live_not_all_done [of i "goroutines s"] by simp
    have "search_inv (s\<lparr>resultChan := [identity]\<rparr>)"
      using inv_change_live(2) [OF assms n d, of "[identity]"] by simp
    then show ?thesis
      unfolding publish(3) using True publish(1) by (simp add: inv_goto_live)
  next
    case (drop identity)
    with assms True show ?thesis
      by (simp add: inv_goto_live)
  next
    case return
    have d: "\<not> (\<forall>pc\<in>set (goroutines s). pc = WDone)"
      using True return(1) live_not_all_done [of i "goroutines s"] by simp
    have p: "int (pending (goto i WDone s)) = int (pending s) - 1"
      using True return(1) by (simp add: pending_goto_done)
    have g: "goto i WDone (s\<lparr>wg := wg s - 1\<rparr>) = (goto i WDone s)\<lparr>wg := wg s - 1\<rparr>"
      by (simp add: goto_def)
    show ?thesis
      unfolding return(2) g using assms n d p
      by (cases "at_main s") (simp_all add: search_inv_def)
  next
    case stay
    with assms show ?thesis by simp
  qed
qed

lemma inv_step: "search_inv s \<Longrightarrow> search_inv (step P e s)"
  by (cases e) (simp_all add: step_def inv_main_step inv_worker)

lemma inv_run: "search_inv s \<Longrightarrow> search_inv (run P sched s)"
  by (induction sched arbitrary: s) (simp_all add: inv_step)

lemma safe_init: "safe (init pre post n)"
  by (simp add: safe_def init_def panicked_def)

lemma safe_main_step:
  assumes "safe s"
  shows "safe (main_step s)"
proof (cases "at_main s")
  case MStart
  show ?thesis
  proof (cases "validateInputs (prefix s) (postfix s) (workers s)")
    case None
    then have l: "length (prefix s) \<le> 32" "length (postfix s) \<le> 32"
      by (simp_all add: validateInputs_None_iff)
    have "length (prefixNibbles (main_step s)) \<le> 32" "length (postfixNibbles (main_step s)) \<le> 32"
      using assms l MStart None
      by (simp_all add: main_step_def Let_def length_hexToNibbles strings_ToLower_def safe_def)
    moreover have "\<not> panicked (main_step s)"
      using assms by (simp add: panicked_main_step safe_def)
    ultimately show ?thesis
      using assms main_step_MStart_fields [OF MStart None] by (simp add: safe_def)
  next
    case (Some err)
    with assms MStart show ?thesis
      by (simp add: safe_def main_step_def)
  qed
next
  case (MSpawn i)
  with assms show ?thesis
    by (simp add: safe_def main_step_def panicked_def)
next
  case MRecv
  with assms show ?thesis
    by (cases "resultChan s") (simp_all add: safe_def main_step_def)
next
  case (MStore identity)
  with assms show ?thesis
    by (simp add: safe_def main_step_def)
next
  case (MWait identity)
  with assms show ?thesis
    by (simp add: safe_def main_step_def)
next
  case (MDone identity)
  with assms show ?thesis
    by (simp add: safe_def main_step_def)
next
  case (MExit err)
  with assms show ?thesis
    by (simp add: safe_def main_step_def)
qed

lemma safe_goto:
  assumes "safe s"
    and "case pc of WCount identity \<Rightarrow> length (Address identity) = 16 | WPanic e \<Rightarrow> False | _ \<Rightarrow> True"
  shows "safe (goto i pc s)"
proof -
  have sub: "set ((goroutines s)[i := pc]) \<subseteq> insert pc (set (goroutines s))"
    by (rule set_update_subset_insert)
  have c: "\<not> panicked (goto i pc s)"
    using assms by (intro not_panicked_goto) (auto simp add: safe_def)
  have "\<forall>pc'\<in>set ((goroutines s)[i := pc]).
          case pc' of WCount identity \<Rightarrow> length (Address identity) = 16 | _ \<Rightarrow> True"
  proof
    fix pc' assume "pc' \<in> set ((goroutines s)[i := pc])"
    with sub have "pc' = pc \<or> pc' \<in> set (goroutines s)"
      by auto
    then show "case pc' of WCount identity \<Rightarrow> length (Address identity) = 16 | _ \<Rightarrow> True"
      using assms by (auto simp add: safe_def split: worker_pc.splits)
  qed
  with c assms(1) show ?thesis
    by (simp add: safe_def goroutines_goto split: main_pc.splits)
qed

lemma safe_fields:
  assumes "safe s"
  shows "safe (s\<lparr>totalAttempts := c\<rparr>)" and "safe (s\<lparr>resultChan := q\<rparr>)" and "safe (s\<lparr>wg := w\<rparr>)"
  using assms by (simp_all add: safe_def split: main_pc.splits)

lemma count_no_panic:
  assumes "safe s" and "i < length (goroutines s)" and "goroutines s ! i = WCount identity"
  shows "\<exists>pc. (pc = WTop \<or> pc = WPublish identity) \<and>
           worker P i r s = goto i pc (s\<lparr>totalAttempts := totalAttempts s + 1\<rparr>)"
proof -
  have "WCount identity \<in> set (goroutines s)"
    using assms(2,3) by (metis nth_mem)
  with assms(1) have "length (Address identity) = 16"
    by (auto simp add: safe_def)
  with assms(1) obtain b
    where "matchesPattern (prefixNibbles s) (postfixNibbles s) (Address identity) = Inr b"
    using matchesPattern_total [of "Address identity" "prefixNibbles s" "postfixNibbles s"]
    by (auto simp add: safe_def)
  with assms(2,3) show ?thesis
    by (cases b) (auto simp add: worker_def)
qed

lemma safe_worker:
  assumes "safe s"
  shows "safe (worker P i r s)"
proof (cases "i < length (goroutines s)")
  case False
  with assms show ?thesis
    by (simp add: worker_def)
next
  case True
  show ?thesis
  proof (cases "goroutines s ! i")
    case (WCount identity)
    from count_no_panic [OF assms True WCount, of P r] obtain pc
      where pc: "pc = WTop \<or> pc = WPublish identity"
        and w: "worker P i r s = goto i pc (s\<lparr>totalAttempts := totalAttempts s + 1\<rparr>)"
      by blast
    show ?thesis
      unfolding w using pc safe_fields(1) [OF assms] by (intro safe_goto) auto
  next
    case WTop
    with True have "worker P i r s = goto i (if found s = 1 then WReturn else WRand) s"
      by (simp add: worker_def)
    then show ?thesis
      using assms by (simp add: safe_goto)
  next
    case WRand
    from True show ?thesis
    proof (cases rule: worker_cases [where P = P and r = r])
      case (rand_ok randBuf)
      then show ?thesis
        using assms by (simp add: safe_goto length_Address_newIdentity)
    next
      case rand_err
      then show ?thesis
        using assms by (simp add: safe_goto)
    next
      case rand_fatal
      then show ?thesis
        using assms by (simp add: safe_goto)
    next
      case stay
      then show ?thesis
        using assms by simp
    qed (simp_all add: WRand)
  next
    case (WPublish identity)
    with True have "worker P i r s = goto i WReturn (s\<lparr>resultChan := resultChan s @ [identity]\<rparr>) \<or>
        worker P i r s = goto i WReturn s"
      by (simp add: worker_def)
    then show ?thesis
      using assms safe_fields(2) [OF assms] by (auto simp add: safe_goto)
  next
    case WReturn
    with True have "worker P i r s = goto i WDone (s\<lparr>wg := wg s - 1\<rparr>)"
      by (simp add: worker_def)
    then show ?thesis
      using safe_fields(3) [OF assms] by (simp add: safe_goto)
  next
    case WDone
    with True assms show ?thesis
      by (simp add: worker_def)
  next
    case (WPanic e)
    with True assms show ?thesis
      by (simp add: worker_def)
  next
    case WFatal
    with True assms show ?thesis
      by (simp add: worker_def)
  qed
qed

lemma safe_step: "safe s \<Longrightarrow> safe (step P e s)"
  by (cases e) (simp_all add: step_def safe_main_step safe_worker)

lemma safe_run: "safe s \<Longrightarrow> safe (run P sched s)"
  by (induction sched arbitrary: s) (simp_all add: safe_step)

text \<open>
  Once \<open>main\<close> is in \<open>wg.Wait()\<close> the flag is set, and every step of a worker brings it
  nearer to its return, whatever it draws, as long as the random source does not fail
  fatally.
\<close>

lemma drain_worker:
  assumes "safe s" and "\<not> crashed s" and "found s = 1" and "i < length (goroutines s)"
    and "draw_ok (Worker i r)"
  shows "steps_left (goroutines (worker P i r s) ! i) \<le> steps_left (goroutines s ! i) - 1"
    and "\<not> crashed (worker P i r s)"
proof -
  have "steps_left (goroutines (worker P i r s) ! i) \<le> steps_left (goroutines s ! i) - 1 \<and>
        \<not> crashed (worker P i r s)"
  proof (cases "goroutines s ! i")
    case (WCount identity)
    from count_no_panic [OF assms(1,4) WCount, of P r] obtain pc
      where pc: "pc = WTop \<or> pc = WPublish identity"
        and w: "worker P i r s = goto i pc (s\<lparr>totalAttempts := totalAttempts s + 1\<rparr>)"
      by blast
    have "\<not> crashed (s\<lparr>totalAttempts := totalAttempts s + 1\<rparr>)"
      using assms(2) by simp
    then have "\<not> crashed (goto i pc (s\<lparr>totalAttempts := totalAttempts s + 1\<rparr>))"
      using pc by (intro not_crashed_goto) auto
    with pc w assms(4) WCount show ?thesis
      by (auto simp add: steps_left_def goroutines_goto)
  next
    case WTop
    with assms have w: "worker P i r s = goto i WReturn s"
      by (simp add: worker_def)
    have "\<not> crashed (goto i WReturn s)"
      using assms(2) by (rule not_crashed_goto) simp_all
    with w assms(4) WTop show ?thesis
      by (simp add: steps_left_def goroutines_goto)
  next
    case WRand
    show ?thesis
    proof (cases r)
      case RandErr
      with WRand assms(4) have w: "worker P i r s = goto i WTop s"
        by (simp add: worker_def)
      have "\<not> crashed (goto i WTop s)"
        using assms(2) by (rule not_crashed_goto) simp_all
      with w assms(4) WRand show ?thesis
        by (simp add: steps_left_def goroutines_goto)
    next
      case (RandOk randBuf)
      with assms(5) have "length randBuf = 64"
        by (simp add: draw_ok_def)
      with RandOk WRand assms(4)
      have w: "worker P i r s = goto i (WCount (newIdentity P randBuf)) s"
        by (simp add: worker_def)
      have "\<not> crashed (goto i (WCount (newIdentity P randBuf)) s)"
        using assms(2) by (rule not_crashed_goto) simp_all
      with w assms(4) WRand show ?thesis
        by (simp add: steps_left_def goroutines_goto)
    next
      case RandFatal
      with assms(5) show ?thesis
        by (simp add: draw_ok_def)
    qed
  next
    case (WPublish identity)
    with assms(4)
    have w: "worker P i r s = goto i WReturn (s\<lparr>resultChan := resultChan s @ [identity]\<rparr>) \<or>
        worker P i r s = goto i WReturn s"
      by (simp add: worker_def)
    have "\<not> crashed (goto i WReturn (s\<lparr>resultChan := resultChan s @ [identity]\<rparr>))"
      "\<not> crashed (goto i WReturn s)"
      using assms(2) by (simp_all add: not_crashed_goto)
    with w assms(4) WPublish show ?thesis
      by (auto simp add: steps_left_def goroutines_goto)
  next
    case WReturn
    with assms(4) have w: "worker P i r s = goto i WDone (s\<lparr>wg := wg s - 1\<rparr>)"
      by (simp add: worker_def)
    have "\<not> crashed (goto i WDone (s\<lparr>wg := wg s - 1\<rparr>))"
      using assms(2) by (simp add: not_crashed_goto)
    with w assms(4) WReturn show ?thesis
      by (simp add: steps_left_def goroutines_goto)
  next
    case WDone
    with assms(2,4) show ?thesis
      by (simp add: worker_def steps_left_def)
  next
    case (WPanic e)
    with assms(2,4) show ?thesis
      by (simp add: worker_def steps_left_def)
  next
    case WFatal
    with assms(2,4) show ?thesis
      by (simp add: worker_def steps_left_def)
  qed
  then show "steps_left (goroutines (worker P i r s) ! i) \<le> steps_left (goroutines s ! i) - 1"
    and "\<not> crashed (worker P i r s)"
    by simp_all
qed

lemma drain_step:
  assumes "safe s" and "\<not> crashed s" and "at_main s = MWait x \<or> at_main s = MDone x"
    and "draw_ok e"
  shows "safe (step P e s)" and "\<not> crashed (step P e s)"
    and "at_main (step P e s) = MWait x \<or> at_main (step P e s) = MDone x"
    and "length (goroutines (step P e s)) = length (goroutines s)"
    and "\<forall>i<length (goroutines s).
           steps_left (goroutines (step P e s) ! i) \<le> steps_left (goroutines s ! i) - turns i [e]"
proof -
  have f: "found s = 1"
    using assms(1,3) by (auto simp add: safe_def)
  show "safe (step P e s)"
    using assms(1) by (rule safe_step)
  show "\<not> crashed (step P e s)"
  proof (cases e)
    case Main
    with assms(2) show ?thesis
      by (simp add: step_def crashed_main_step)
  next
    case (Worker i r)
    show ?thesis
    proof (cases "i < length (goroutines s)")
      case True
      with assms f Worker show ?thesis
        by (simp add: step_def drain_worker(2))
    next
      case False
      with assms(2) Worker show ?thesis
        by (simp add: step_def worker_def)
    qed
  qed
  show "at_main (step P e s) = MWait x \<or> at_main (step P e s) = MDone x"
    using assms(2,3) by (cases e) (auto simp add: step_def main_step_def)
  show "length (goroutines (step P e s)) = length (goroutines s)"
    using assms(2,3) by (cases e) (auto simp add: step_def main_step_def)
  show "\<forall>i<length (goroutines s).
          steps_left (goroutines (step P e s) ! i) \<le> steps_left (goroutines s ! i) - turns i [e]"
  proof (intro allI impI)
    fix i assume i: "i < length (goroutines s)"
    show "steps_left (goroutines (step P e s) ! i) \<le> steps_left (goroutines s ! i) - turns i [e]"
    proof (cases e)
      case Main
      with assms(2,3) show ?thesis
        by (auto simp add: step_def main_step_def turns_Cons)
    next
      case (Worker j r)
      show ?thesis
      proof (cases "j = i")
        case True
        with assms(4) Worker have "draw_ok (Worker i r)"
          by simp
        from drain_worker(1) [OF assms(1,2) f i this, of P]
        show ?thesis
          using assms(2) Worker True by (simp add: step_def turns_Cons)
      next
        case False
        with assms(2) Worker show ?thesis
          by (simp add: step_def turns_Cons worker_other [of i j])
      qed
    qed
  qed
qed

lemma drain_run:
  assumes "safe s" and "\<not> crashed s" and "at_main s = MWait x \<or> at_main s = MDone x"
    and "draws_ok b"
  shows "safe (run P b s) \<and> \<not> crashed (run P b s) \<and>
         (at_main (run P b s) = MWait x \<or> at_main (run P b s) = MDone x) \<and>
         length (goroutines (run P b s)) = length (goroutines s) \<and>
         (\<forall>i<length (goroutines s).
            steps_left (goroutines (run P b s) ! i) \<le> steps_left (goroutines s ! i) - turns i b)"
  using assms
proof (induction b arbitrary: s)
  case Nil
  then show ?case by simp
next
  case (Cons e es)
  let ?t = "step P e s"
  from Cons.prems(4) have ok: "draw_ok e" "draws_ok es"
    by (simp_all add: draws_ok_Cons)
  note d = drain_step [OF Cons.prems(1-3) ok(1), of P]
  note ih = Cons.IH [OF d(1-3) ok(2)]
  have "steps_left (goroutines (run P es ?t) ! i) \<le> steps_left (goroutines s ! i) - turns i (e # es)"
    if i: "i < length (goroutines s)" for i
  proof -
    from d(5) i have 1: "steps_left (goroutines ?t ! i) \<le> steps_left (goroutines s ! i) - turns i [e]"
      by blast
    from ih i d(4)
    have 2: "steps_left (goroutines (run P es ?t) ! i) \<le> steps_left (goroutines ?t ! i) - turns i es"
      by simp
    have "turns i (e # es) = turns i [e] + turns i es"
      using turns_append [of i "[e]" es] by simp
    with 1 2 show ?thesis
      by arith
  qed
  with ih d(4) show ?case
    by simp
qed

lemma steps_left_0:
  assumes "\<not> crashed s" and "i < length (goroutines s)" and "steps_left (goroutines s ! i) = 0"
  shows "goroutines s ! i = WDone"
proof -
  have "goroutines s ! i \<in> set (goroutines s)"
    using assms(2) by simp
  with assms(1) have "(\<forall>e. goroutines s ! i \<noteq> WPanic e) \<and> goroutines s ! i \<noteq> WFatal"
    by (auto simp add: crashed_def list_ex_iff split: worker_pc.splits)
  with assms(3) show ?thesis
    by (cases "goroutines s ! i") (simp_all add: steps_left_def)
qed

lemma steps_left_le_4: "steps_left pc \<le> 4"
  by (cases pc) (simp_all add: steps_left_def)

lemma main_finishes:
  assumes "search_inv s" and "safe s" and "\<not> crashed s" and "main_identity s = Some x"
    and "draws_ok b" and "\<forall>i<length (goroutines s). 4 \<le> turns i b"
  shows "at_main (run P (Main # b @ [Main]) s) = MDone x"
proof -
  let ?t = "step P Main s"
  have t: "?t = main_step s"
    using assms(3) by (simp add: step_def)
  have l: "length (goroutines ?t) = length (goroutines s)"
    using assms(4) unfolding t
    by (cases "at_main s") (simp_all add: main_step_def main_identity_def)
  have m: "at_main ?t = MWait x \<or> at_main ?t = MDone x"
    using assms(4) unfolding t
    by (cases "at_main s") (simp_all add: main_step_def main_identity_def)
  have p: "safe ?t" "search_inv ?t"
    using assms(1,2) by (simp_all add: safe_step inv_step)
  have c: "\<not> crashed ?t"
    unfolding t using assms(3) by (simp add: crashed_main_step)
  let ?u = "run P b ?t"
  note a = drain_run [OF p(1) c m assms(5), of P]
  have i: "search_inv ?u"
    using p(2) by (rule inv_run)
  have "goroutines ?u ! i = WDone" if i: "i < length (goroutines s)" for i
  proof -
    from a i l
    have "steps_left (goroutines ?u ! i) \<le> steps_left (goroutines ?t ! i) - turns i b"
      by simp
    moreover have "4 \<le> turns i b"
      using assms(6) i by blast
    moreover note steps_left_le_4 [of "goroutines ?t ! i"]
    ultimately have "steps_left (goroutines ?u ! i) = 0"
      by arith
    moreover have "\<not> crashed ?u" "i < length (goroutines ?u)"
      using a i l by simp_all
    ultimately show ?thesis
      by (intro steps_left_0)
  qed
  moreover have "length (goroutines ?u) = length (goroutines s)"
    using a l by simp
  ultimately have "\<forall>pc\<in>set (goroutines ?u). pc = WDone"
    by (simp add: all_set_conv_all_nth)
  then have "pending ?u = 0"
    by (simp add: pending_0_iff)
  with i have w: "wg ?u = 0"
    by (simp add: search_inv_def)
  have "\<not> crashed ?u" "at_main ?u = MWait x \<or> at_main ?u = MDone x"
    using a by simp_all
  then have "at_main (step P Main ?u) = MDone x"
    using w by (auto simp add: step_def main_step_def)
  then show ?thesis
    by (simp add: run_append)
qed

text \<open>
  The process ends before \<open>main\<close> returns only by a fatal failure of the random source:
  without one, no execution from the initial state is ever stopped.
\<close>

lemma not_crashed_run:
  assumes "safe s" and "\<not> crashed s" and "draws_ok sched"
  shows "\<not> crashed (run P sched s)"
  using assms
proof (induction sched arbitrary: s)
  case Nil
  then show ?case by simp
next
  case (Cons e es)
  from Cons.prems(3) have ok: "draw_ok e" "draws_ok es"
    by (simp_all add: draws_ok_Cons)
  have "\<not> crashed (step P e s)"
  proof (cases e)
    case Main
    with Cons.prems(2) show ?thesis
      by (simp add: step_def crashed_main_step)
  next
    case (Worker i r)
    show ?thesis
    proof (cases "i < length (goroutines s)")
      case False
      with Cons.prems(2) Worker show ?thesis
        by (simp add: step_def worker_def)
    next
      case True
      have "\<not> crashed (worker P i r s)"
      proof (cases "goroutines s ! i")
        case (WCount identity)
        from count_no_panic [OF Cons.prems(1) True WCount, of P r] obtain pc
          where pc: "pc = WTop \<or> pc = WPublish identity"
            and w: "worker P i r s = goto i pc (s\<lparr>totalAttempts := totalAttempts s + 1\<rparr>)"
          by blast
        have "\<not> crashed (s\<lparr>totalAttempts := totalAttempts s + 1\<rparr>)"
          using Cons.prems(2) by simp
        then have "\<not> crashed (goto i pc (s\<lparr>totalAttempts := totalAttempts s + 1\<rparr>))"
          using pc by (intro not_crashed_goto) auto
        with w show ?thesis
          by simp
      next
        case WRand
        with True ok(1) Worker Cons.prems(2) show ?thesis
          by (cases r) (simp_all add: worker_def draw_ok_def not_crashed_goto)
      qed (use True Cons.prems(2) in \<open>simp_all add: worker_def not_crashed_goto\<close>)
      with Cons.prems(2) Worker show ?thesis
        by (simp add: step_def)
    qed
  qed
  with Cons.IH [OF safe_step [OF Cons.prems(1)] _ ok(2)] show ?case
    by simp
qed

lemma matched_fields [simp]:
  "matched P (s\<lparr>totalAttempts := c\<rparr>) = matched P s"
  "matched P (s\<lparr>resultChan := q\<rparr>) = matched P s"
  "matched P (s\<lparr>wg := w\<rparr>) = matched P s"
  "matched P (s\<lparr>at_main := m\<rparr>) = matched P s"
  "matched P (s\<lparr>found := f\<rparr>) = matched P s"
  "matched P (s\<lparr>goroutines := g\<rparr>) = matched P s"
  "matched P (goto i pc s) = matched P s"
  by (simp_all add: matched_def fun_eq_iff goto_def)

lemma provenance_init: "provenance P (init pre post n)"
  by (simp add: provenance_def init_def main_identity_def)

lemma provenance_main_step:
  assumes "provenance P s"
  shows "provenance P (main_step s)"
proof (cases "at_main s")
  case MStart
  show ?thesis
  proof (cases "validateInputs (prefix s) (postfix s) (workers s)")
    case None
    with assms MStart main_step_MStart_fields [OF MStart None] show ?thesis
      by (simp add: provenance_def main_identity_def)
  next
    case (Some err)
    with assms MStart show ?thesis
      by (simp add: provenance_def main_step_def main_identity_def)
  qed
next
  case (MSpawn i)
  with assms show ?thesis
    by (auto simp add: provenance_def main_step_def main_identity_def)
next
  case MRecv
  with assms show ?thesis
    by (cases "resultChan s") (auto simp add: provenance_def main_step_def main_identity_def)
next
  case (MStore identity)
  with assms show ?thesis
    by (auto simp add: provenance_def main_step_def main_identity_def)
next
  case (MWait identity)
  with assms show ?thesis
    by (auto simp add: provenance_def main_step_def main_identity_def)
next
  case (MDone identity)
  with assms show ?thesis
    by (simp add: provenance_def main_step_def)
next
  case (MExit err)
  with assms show ?thesis
    by (simp add: provenance_def main_step_def)
qed

lemma provenance_goto:
  assumes "provenance P s" and "i < length (goroutines s)"
    and "\<And>identity. pc = WCount identity \<Longrightarrow> made_by P identity"
    and "\<And>identity. pc = WPublish identity \<Longrightarrow> matched P s identity"
  shows "provenance P (goto i pc s)"
proof -
  have sub: "set ((goroutines s)[i := pc]) \<subseteq> insert pc (set (goroutines s))"
    by (rule set_update_subset_insert)
  have a: "made_by P identity" if "WCount identity \<in> set ((goroutines s)[i := pc])" for identity
    using that sub assms(1,3) by (auto simp add: provenance_def)
  have b: "matched P s identity" if "WPublish identity \<in> set ((goroutines s)[i := pc])" for identity
    using that sub assms(1,4) by (auto simp add: provenance_def)
  have "at_main s \<noteq> MStart"
    using assms(1,2) by (auto simp add: provenance_def)
  with a b show ?thesis
    using assms(1) by (simp add: provenance_def goroutines_goto main_identity_def)
qed

lemma provenance_worker:
  assumes "provenance P s"
  shows "provenance P (worker P i r s)"
proof (cases "i < length (goroutines s)")
  case False
  with assms show ?thesis
    by (simp add: worker_def)
next
  case True
  then have m: "goroutines s ! i \<in> set (goroutines s)"
    by simp
  have ns: "at_main s \<noteq> MStart"
    using assms True by (auto simp add: provenance_def)
  show ?thesis
  proof (cases "goroutines s ! i")
    case WTop
    with True have "worker P i r s = goto i (if found s = 1 then WReturn else WRand) s"
      by (simp add: worker_def)
    with assms True show ?thesis
      by (auto intro!: provenance_goto)
  next
    case WRand
    from True show ?thesis
    proof (cases rule: worker_cases [where P = P and r = r])
      case (rand_ok randBuf)
      then have "made_by P (newIdentity P randBuf)"
        by (auto simp add: made_by_def)
      with rand_ok assms True show ?thesis
        by (auto intro!: provenance_goto)
    next
      case rand_err
      with assms True show ?thesis
        by (auto intro!: provenance_goto)
    next
      case rand_fatal
      with assms True show ?thesis
        by (auto intro!: provenance_goto)
    next
      case stay
      with assms show ?thesis
        by simp
    qed (simp_all add: WRand)
  next
    case (WCount identity)
    let ?s = "s\<lparr>totalAttempts := totalAttempts s + 1\<rparr>"
    let ?m = "matchesPattern (prefixNibbles s) (postfixNibbles s) (Address identity)"
    have p: "provenance P ?s"
      using assms by (simp add: provenance_def main_identity_def)
    have mb: "made_by P identity"
      using assms m WCount by (simp add: provenance_def)
    show ?thesis
    proof (cases ?m)
      case (Inl e)
      with True WCount have "worker P i r s = goto i (WPanic e) ?s"
        by (simp add: worker_def)
      with p True show ?thesis
        by (auto intro!: provenance_goto)
    next
      case (Inr b)
      show ?thesis
      proof (cases b)
        case True
        with Inr \<open>i < length (goroutines s)\<close> WCount
        have "worker P i r s = goto i (WPublish identity) ?s"
          by (simp add: worker_def)
        moreover have "matched P ?s identity"
          using mb Inr True by (simp add: matched_def)
        ultimately show ?thesis
          using p \<open>i < length (goroutines s)\<close> by (auto intro!: provenance_goto)
      next
        case False
        with Inr \<open>i < length (goroutines s)\<close> WCount
        have "worker P i r s = goto i WTop ?s"
          by (simp add: worker_def)
        with p \<open>i < length (goroutines s)\<close> show ?thesis
          by (auto intro!: provenance_goto)
      qed
    qed
  next
    case (WPublish identity)
    have mt: "matched P s identity"
      using assms m WPublish by (simp add: provenance_def)
    show ?thesis
    proof (cases "length (resultChan s) < 1")
      case c: True
      let ?s = "s\<lparr>resultChan := resultChan s @ [identity]\<rparr>"
      have "provenance P ?s"
        using assms mt ns by (auto simp add: provenance_def main_identity_def)
      moreover have "worker P i r s = goto i WReturn ?s"
        using c True WPublish by (simp add: worker_def)
      ultimately show ?thesis
        using True by (auto intro!: provenance_goto)
    next
      case False
      with True WPublish have "worker P i r s = goto i WReturn s"
        by (simp add: worker_def)
      with assms True show ?thesis
        by (auto intro!: provenance_goto)
    qed
  next
    case WReturn
    let ?s = "s\<lparr>wg := wg s - 1\<rparr>"
    have "provenance P ?s"
      using assms by (simp add: provenance_def main_identity_def)
    moreover have "worker P i r s = goto i WDone ?s"
      using True WReturn by (simp add: worker_def)
    ultimately show ?thesis
      using True by (auto intro!: provenance_goto)
  next
    case WDone
    with True assms show ?thesis
      by (simp add: worker_def)
  next
    case (WPanic e)
    with True assms show ?thesis
      by (simp add: worker_def)
  next
    case WFatal
    with True assms show ?thesis
      by (simp add: worker_def)
  qed
qed

lemma provenance_step: "provenance P s \<Longrightarrow> provenance P (step P e s)"
  by (cases e) (simp_all add: step_def provenance_main_step provenance_worker)

lemma provenance_run: "provenance P s \<Longrightarrow> provenance P (run P sched s)"
  by (induction sched arbitrary: s) (simp_all add: provenance_step)

lemma discovered_matched:
  assumes "at_main (run P sched (init pre post n)) = MDone identity"
  shows "matched P (run P sched (init pre post n)) identity"
proof -
  have "provenance P (run P sched (init pre post n))"
    using provenance_init by (rule provenance_run)
  moreover have "main_identity (run P sched (init pre post n)) = Some identity"
    using assms by (simp add: main_identity_def)
  ultimately show ?thesis
    by (simp add: provenance_def)
qed

section \<open>Determinism and round trip\<close>

lemma computeHashes_same_keys:
  assumes "primitives_sized P" and "Identity_sized a" and "Identity_sized b"
    and "X25519Public a = X25519Public b" and "Ed25519Public a = Ed25519Public b"
    and "length nh = 10"
  shows "Hash (computeHashes P nh a) = Hash (computeHashes P nh b)"
    and "Address (computeHashes P nh a) = Address (computeHashes P nh b)"
proof -
  show h: "Hash (computeHashes P nh a) = Hash (computeHashes P nh b)"
    using assms by (simp add: computeHashes_Hash)
  show "Address (computeHashes P nh a) = Address (computeHashes P nh b)"
    using assms h by (simp add: computeHashes_Address)
qed

lemma computeHashes_idem:
  assumes "primitives_sized P" and "Identity_sized a" and "length nh = 10"
  shows "computeHashes P nh (computeHashes P nh a) = computeHashes P nh a"
proof -
  let ?b = "computeHashes P nh a"
  have s: "Identity_sized ?b"
    using assms(2) by (simp add: computeHashes_def Let_def Identity_sized_def)
  have k: "X25519Public ?b = X25519Public a" "Ed25519Public ?b = Ed25519Public a"
    by (simp_all add: computeHashes_keys)
  have h: "Hash (computeHashes P nh ?b) = Hash ?b"
    using computeHashes_same_keys(1) [OF assms(1) s assms(2) k assms(3)] .
  have a: "Address (computeHashes P nh ?b) = Address ?b"
    using computeHashes_same_keys(2) [OF assms(1) s assms(2) k assms(3)] .
  have "computeHashes P nh ?b = ?b\<lparr>Hash := Hash (computeHashes P nh ?b),
           Address := Address (computeHashes P nh ?b)\<rparr>"
    by (simp add: computeHashes_def [of P nh ?b] Let_def)
  then show ?thesis
    unfolding h a by simp
qed

lemma worker_RandOk:
  assumes "i < length (goroutines s)" and "goroutines s ! i = WRand" and "length randBuf = 64"
  shows "worker P i (RandOk randBuf) s = goto i (WCount (newIdentity P randBuf)) s"
  using assms by (simp add: worker_def)

lemma newIdentity_round_trip:
  assumes "primitives_sized P" and "length randBuf = 64"
  shows "spec_fingerprint P (X25519Public (newIdentity P randBuf))
                            (Ed25519Public (newIdentity P randBuf)) =
           Hash (newIdentity P randBuf)"
    and "spec_address P (Hash (newIdentity P randBuf)) = Address (newIdentity P randBuf)"
    and "computeHashes P (nameHash P) (newIdentity P randBuf) = newIdentity P randBuf"
proof -
  have n: "length (nameHash P) = 10"
    using assms(1) by (rule length_nameHash)
  have g: "Identity_sized (generateKeyPairs P randBuf)"
    using assms(2,1) by (rule Identity_sized_generateKeyPairs)
  show "spec_fingerprint P (X25519Public (newIdentity P randBuf))
                            (Ed25519Public (newIdentity P randBuf)) =
           Hash (newIdentity P randBuf)"
    unfolding newIdentity_def spec_fingerprint_def
    using computeHashes_Hash [OF assms(1) g] by (simp add: computeHashes_keys)
  show "spec_address P (Hash (newIdentity P randBuf)) = Address (newIdentity P randBuf)"
    unfolding newIdentity_def spec_address_def spec_name_hash_def
    using computeHashes_Address [OF assms(1) g n] by (simp add: nameHash_eq)
  show "computeHashes P (nameHash P) (newIdentity P randBuf) = newIdentity P randBuf"
    unfolding newIdentity_def using assms(1) g n by (rule computeHashes_idem)
qed

text \<open>
  Claim C8.  The fingerprint and the address depend on nothing but the two public keys:
  two identities with the same public keys get the same \<open>Hash\<close> and \<open>Address\<close>, whatever
  their other fields hold.  A worker that draws 64 bytes builds the same identity in every
  state.  For the identity it builds, recomputing the fingerprint from the stored public
  keys and the address from the stored fingerprint gives back \<open>Hash\<close> and \<open>Address\<close>, and
  running the derivation of the program again on it changes nothing.  The same holds for
  every identity that \<open>main\<close> holds when it is past \<open>wg.Wait()\<close>, in every execution.
\<close>

theorem derivation_round_trip:
  assumes "primitives_sized P" and "length randBuf = 64"
    and "Identity_sized a" and "Identity_sized b"
    and "X25519Public a = X25519Public b" and "Ed25519Public a = Ed25519Public b"
    and "i < length (goroutines s)" and "goroutines s ! i = WRand"
  shows "Hash (computeHashes P (nameHash P) a) = Hash (computeHashes P (nameHash P) b) \<and>
         Address (computeHashes P (nameHash P) a) = Address (computeHashes P (nameHash P) b) \<and>
         goroutines (worker P i (RandOk randBuf) s) ! i = WCount (newIdentity P randBuf) \<and>
         spec_fingerprint P (X25519Public (newIdentity P randBuf))
                            (Ed25519Public (newIdentity P randBuf)) =
           Hash (newIdentity P randBuf) \<and>
         spec_address P (Hash (newIdentity P randBuf)) = Address (newIdentity P randBuf) \<and>
         computeHashes P (nameHash P) (newIdentity P randBuf) = newIdentity P randBuf \<and>
         (at_main (run P sched (init pre post n)) = MDone identity \<longrightarrow>
            spec_fingerprint P (X25519Public identity) (Ed25519Public identity) = Hash identity \<and>
            spec_address P (Hash identity) = Address identity \<and>
            computeHashes P (nameHash P) identity = identity)"
proof -
  have n: "length (nameHash P) = 10"
    using assms(1) by (rule length_nameHash)
  have w: "goroutines (worker P i (RandOk randBuf) s) ! i = WCount (newIdentity P randBuf)"
    using assms(7,8,2) by (simp add: worker_RandOk goto_def)
  have d: "spec_fingerprint P (X25519Public identity) (Ed25519Public identity) = Hash identity \<and>
            spec_address P (Hash identity) = Address identity \<and>
            computeHashes P (nameHash P) identity = identity"
    if "at_main (run P sched (init pre post n)) = MDone identity"
  proof -
    from discovered_matched [OF that] obtain rb
      where "length rb = 64" and "identity = newIdentity P rb"
      by (auto simp add: matched_def made_by_def)
    with newIdentity_round_trip [OF assms(1), of rb] show ?thesis
      by simp
  qed
  show ?thesis
    using computeHashes_same_keys [OF assms(1,3,4,5,6) n]
      newIdentity_round_trip [OF assms(1,2)] w d by simp
qed

theorem derivation_round_trip_witness:
  "primitives_sized toy \<and> Identity_sized id0 \<and> Identity_sized (id0\<lparr>Hash := replicate 16 9\<rparr>) \<and>
   goroutines s_rand ! 0 = WRand \<and>
   Hash (computeHashes toy (nameHash toy) id0) =
     Hash (computeHashes toy (nameHash toy) (id0\<lparr>Hash := replicate 16 9\<rparr>)) \<and>
   Address (computeHashes toy (nameHash toy) id0) =
     Address (computeHashes toy (nameHash toy) (id0\<lparr>Hash := replicate 16 9\<rparr>)) \<and>
   goroutines (worker toy 0 (RandOk (replicate 64 7)) s_rand) ! 0 =
     WCount (newIdentity toy (replicate 64 7)) \<and>
   spec_fingerprint toy (X25519Public (newIdentity toy (replicate 64 7)))
                        (Ed25519Public (newIdentity toy (replicate 64 7))) =
     Hash (newIdentity toy (replicate 64 7)) \<and>
   spec_address toy (Hash (newIdentity toy (replicate 64 7))) =
     Address (newIdentity toy (replicate 64 7)) \<and>
   computeHashes toy (nameHash toy) (newIdentity toy (replicate 64 7)) =
     newIdentity toy (replicate 64 7) \<and>
   at_main (run toy (race @ finish) (init (bytes_of ''1'') [] 2)) =
     MDone (newIdentity toy (replicate 64 1)) \<and>
   spec_address toy (Hash (newIdentity toy (replicate 64 1))) =
     Address (newIdentity toy (replicate 64 1))"
proof -
  have a: "Identity_sized id0" "Identity_sized (id0\<lparr>Hash := replicate 16 9\<rparr>)"
    by (simp_all add: id0_def Identity_sized_def zero_Identity_def)
  have k: "X25519Public id0 = X25519Public (id0\<lparr>Hash := replicate 16 9\<rparr>)"
    "Ed25519Public id0 = Ed25519Public (id0\<lparr>Hash := replicate 16 9\<rparr>)"
    by simp_all
  have l: "length (replicate 64 (7::byte)) = 64"
    by simp
  have g: "0 < length (goroutines s_rand)" "goroutines s_rand ! 0 = WRand"
    by (simp_all add: s_rand_def)
  have d: "at_main (run toy (race @ finish) (init (bytes_of ''1'') [] 2)) =
     MDone (newIdentity toy (replicate 64 1))"
    by (simp add: run_race_finish)
  note t = derivation_round_trip [OF primitives_sized_toy l a k g,
      of "race @ finish" "bytes_of ''1''" "[]" 2 "newIdentity toy (replicate 64 1)"]
  from t d have e: "spec_address toy (Hash (newIdentity toy (replicate 64 1))) =
     Address (newIdentity toy (replicate 64 1))"
    by blast
  from t show ?thesis
    using primitives_sized_toy a g d e by simp
qed

section \<open>The hand-off of the result\<close>

lemma main_identity_step:
  assumes "main_identity s = Some x"
  shows "main_identity (step P e s) = Some x"
proof (cases e)
  case Main
  with assms show ?thesis
    by (cases "at_main s") (simp_all add: step_def main_step_def main_identity_def)
next
  case (Worker i r)
  with assms show ?thesis
    by (simp add: step_def main_identity_def)
qed

lemma main_identity_run:
  "main_identity s = Some x \<Longrightarrow> main_identity (run P sched s) = Some x"
  by (induction sched arbitrary: s) (simp_all add: main_identity_step)

lemma receives_iff:
  "receives e s \<longleftrightarrow> main_identity s = None \<and> main_identity (step P e s) \<noteq> None"
proof (cases e)
  case Main
  show ?thesis
  proof (cases "at_main s")
    case MStart
    with Main show ?thesis
      by (simp add: receives_def step_def main_step_def main_identity_def Let_def
          split: option.splits)
  next
    case MRecv
    with Main show ?thesis
      by (cases "resultChan s") (simp_all add: receives_def step_def main_step_def main_identity_def)
  qed (simp_all add: Main receives_def step_def main_step_def main_identity_def)
next
  case (Worker i r)
  have "main_identity (step P e s) = main_identity s"
    using Worker by (simp add: step_def main_identity_def)
  with Worker show ?thesis
    by (cases "main_identity s") (simp_all add: receives_def)
qed

lemma received_eq:
  "received P sched s =
     (if main_identity s = None \<and> main_identity (run P sched s) \<noteq> None then 1 else 0)"
proof (induction sched arbitrary: s)
  case Nil
  show ?case by (cases "main_identity s") simp_all
next
  case (Cons e es)
  show ?case
  proof (cases "main_identity s")
    case None
    show ?thesis
    proof (cases "receives e s")
      case True
      then obtain x where "main_identity (step P e s) = Some x"
        using receives_iff [of e s P] by auto
      with True None main_identity_run [of "step P e s" x P es] show ?thesis
        by (simp add: Cons.IH)
    next
      case False
      with None have "main_identity (step P e s) = None"
        using receives_iff [of e s P] by simp
      with False None show ?thesis
        by (simp add: Cons.IH)
    qed
  next
    case (Some x)
    then have "\<not> receives e s"
      using receives_iff [of e s P] by simp
    moreover have "main_identity (step P e s) = Some x"
      using Some by (rule main_identity_step)
    ultimately show ?thesis
      using Some by (simp add: Cons.IH)
  qed
qed

lemma publish_step:
  assumes "i < length (goroutines s)" and "goroutines s ! i = WPublish x" and "\<not> crashed s"
  shows "goroutines (step P (Worker i r) s) ! i = WReturn"
    and "resultChan s = [] \<Longrightarrow> resultChan (step P (Worker i r) s) = [x]"
    and "resultChan s \<noteq> [] \<Longrightarrow> resultChan (step P (Worker i r) s) = resultChan s"
  using assms by (simp_all add: step_def worker_def goto_def)

lemma accepted_append:
  "accepted P (xs @ ys) s = accepted P xs s + accepted P ys (run P xs s)"
  by (induction xs arbitrary: s) simp_all

lemma accepted_race_prefix: "accepted toy (take 10 race) (init (bytes_of ''1'') [] 2) = 0"
  by (simp add: race_def init_def bytes_of_def eval_step accepts_def)

text \<open>
  Claim C5 as stated fails: the channel can accept two identities.  With two workers that
  both find a match, worker 0 sends, \<open>main\<close> receives and empties the channel, and the send
  of worker 1 then finds room and is accepted too.  \<open>main\<close> returns the identity of worker
  0; the identity of worker 1 stays in the channel and is never received.
\<close>

theorem two_sends_accepted:
  "accepted toy race (init (bytes_of ''1'') [] 2) = 2 \<and>
   at_main (run toy (race @ finish) (init (bytes_of ''1'') [] 2)) =
     MDone (newIdentity toy (replicate 64 1)) \<and>
   resultChan (run toy (race @ finish) (init (bytes_of ''1'') [] 2)) =
     [newIdentity toy (replicate 64 2)]"
proof -
  have r: "race = take 10 race @ [Worker 0 RandErr, Main, Worker 1 RandErr]"
    by (simp add: race_def)
  have "accepted toy (take 10 race @ [Worker 0 RandErr, Main, Worker 1 RandErr])
          (init (bytes_of ''1'') [] 2) = 2"
    unfolding accepted_append accepted_race_prefix run_race_prefix
    by (simp add: eval_step accepts_def)
  with r have "accepted toy race (init (bytes_of ''1'') [] 2) = 2"
    by simp
  then show ?thesis
    by (simp add: run_race_finish)
qed

lemma run_late:
  "run toy late (init (bytes_of ''1'') [] 2) =
     \<lparr>prefix = [49], postfix = [], workers = 2, prefixNibbles = [1], postfixNibbles = [],
      totalAttempts = 1, found = 0, resultChan = [], wg = 2,
      at_main = MStore (newIdentity toy (replicate 64 1)),
      goroutines = [WReturn, WRand]\<rparr>"
  by (simp add: late_def init_def bytes_of_def eval_step)

lemma run_late_drain:
  "run toy (Main # drain @ [Main]) (run toy late (init (bytes_of ''1'') [] 2)) =
     \<lparr>prefix = [49], postfix = [], workers = 2, prefixNibbles = [1], postfixNibbles = [],
      totalAttempts = 2, found = 1, resultChan = [newIdentity toy (replicate 64 2)], wg = 0,
      at_main = MDone (newIdentity toy (replicate 64 1)),
      goroutines = [WDone, WDone]\<rparr>"
  unfolding run_late by (simp add: drain_def eval_step)

lemma at_main_MDone_run:
  assumes "at_main s = MDone x"
  shows "at_main (run P later s) = MDone x"
  using assms
proof (induction later arbitrary: s)
  case Nil
  then show ?case by simp
next
  case (Cons e es)
  have "at_main (step P e s) = MDone x"
    using Cons.prems by (cases e) (simp_all add: step_def main_step_def)
  from Cons.IH [OF this] show ?case
    by simp
qed

text \<open>
  Claim C5, amended.  In every execution from the initial state the channel holds at most
  one identity and \<open>main\<close> receives at most once.  When \<open>main\<close> is past \<open>wg.Wait()\<close> it
  has received exactly once, as many workers exist as were asked for, every one of them
  has returned, \<open>main\<close> keeps the identity it received, and the address of that identity
  matches the pattern.  No goroutine ever panics, and only a fatal failure of the random
  source ends the process early.

  \<open>main\<close> does return once a worker has published.  Take any state of an execution in
  which \<open>main\<close> holds an identity, or is at its receive with an identity in the channel,
  and any continuation in which \<open>main\<close> takes the next step or two, every worker then
  takes at least four steps, and \<open>main\<close> takes one more; the steps may be interleaved in any
  way and every read may succeed or return an error, as long as none fails fatally.  At
  the end of it \<open>main\<close> is past \<open>wg.Wait()\<close> with that identity.

  A worker at its \<open>select\<close> never blocks: one step takes it to its return; if the channel
  is empty its identity is sent, and if the channel is full the channel keeps what it holds
  and the identity is dropped.
\<close>

theorem single_result:
  "length (resultChan (run P sched (init pre post n))) \<le> 1 \<and>
   received P sched (init pre post n) \<le> 1 \<and>
   (at_main (run P sched (init pre post n)) = MDone identity \<longrightarrow>
      received P sched (init pre post n) = 1 \<and>
      int (length (goroutines (run P sched (init pre post n)))) = n \<and>
      (\<forall>pc\<in>set (goroutines (run P sched (init pre post n))). pc = WDone) \<and>
      at_main (run P later (run P sched (init pre post n))) = MDone identity \<and>
      matchesPattern (prefixNibbles (run P sched (init pre post n)))
        (postfixNibbles (run P sched (init pre post n))) (Address identity) = Inr True) \<and>
   \<not> panicked (run P sched (init pre post n)) \<and>
   (draws_ok sched \<longrightarrow> \<not> crashed (run P sched (init pre post n))) \<and>
   (main_identity (run P sched (init pre post n)) = Some identity \<and>
    \<not> crashed (run P sched (init pre post n)) \<and> draws_ok b \<and>
    (\<forall>j<length (goroutines (run P sched (init pre post n))). 4 \<le> turns j b) \<longrightarrow>
      at_main (run P (Main # b @ [Main]) (run P sched (init pre post n))) = MDone identity) \<and>
   (at_main (run P sched (init pre post n)) = MRecv \<and>
    resultChan (run P sched (init pre post n)) = [identity] \<and>
    \<not> crashed (run P sched (init pre post n)) \<and> draws_ok b \<and>
    (\<forall>j<length (goroutines (run P sched (init pre post n))). 4 \<le> turns j b) \<longrightarrow>
      at_main (run P (Main # Main # b @ [Main]) (run P sched (init pre post n))) = MDone identity) \<and>
   (i < length (goroutines s) \<and> goroutines s ! i = WPublish x \<and> \<not> crashed s \<longrightarrow>
      goroutines (step P (Worker i r) s) ! i = WReturn \<and>
      (resultChan s = [] \<longrightarrow> resultChan (step P (Worker i r) s) = [x]) \<and>
      (resultChan s \<noteq> [] \<longrightarrow> resultChan (step P (Worker i r) s) = resultChan s))"
proof -
  let ?s = "run P sched (init pre post n)"
  have v: "search_inv ?s"
    using inv_init by (rule inv_run)
  have u: "safe ?s"
    using safe_init by (rule safe_run)
  have a: "length (resultChan ?s) \<le> 1"
    using v by (simp add: search_inv_def)
  have b: "received P sched (init pre post n) \<le> 1"
    by (simp add: received_eq)
  have c: "received P sched (init pre post n) = 1 \<and>
      int (length (goroutines ?s)) = n \<and>
      (\<forall>pc\<in>set (goroutines ?s). pc = WDone) \<and>
      at_main (run P later ?s) = MDone identity \<and>
      matchesPattern (prefixNibbles ?s) (postfixNibbles ?s) (Address identity) = Inr True"
    if d: "at_main ?s = MDone identity"
  proof -
    have k: "matchesPattern (prefixNibbles ?s) (postfixNibbles ?s) (Address identity) = Inr True"
      using discovered_matched [OF d] by (simp add: matched_def)
    have m: "main_identity ?s = Some identity"
      using d by (simp add: main_identity_def)
    have "main_identity (init pre post n) = None"
      by (simp add: main_identity_def init_def)
    with m have r: "received P sched (init pre post n) = 1"
      by (simp add: received_eq)
    have "workers ?s = n"
      by (simp add: init_def)
    with v d have g: "int (length (goroutines ?s)) = n" "\<forall>pc\<in>set (goroutines ?s). pc = WDone"
      by (simp_all add: search_inv_def)
    have "at_main (run P later ?s) = MDone identity"
      using d by (rule at_main_MDone_run)
    with r g k show ?thesis
      by simp
  qed
  have e: "\<not> panicked ?s"
    using u by (simp add: safe_def)
  have e': "\<not> crashed ?s" if "draws_ok sched"
  proof -
    have "\<not> crashed (init pre post n)"
      by (simp add: crashed_def init_def)
    with safe_init show ?thesis
      using that by (rule not_crashed_run)
  qed
  have f: "at_main (run P (Main # b @ [Main]) ?s) = MDone identity"
    if "main_identity ?s = Some identity \<and> \<not> crashed ?s \<and> draws_ok b \<and>
        (\<forall>j<length (goroutines ?s). 4 \<le> turns j b)"
    using v u that by (intro main_finishes) simp_all
  have g: "at_main (run P (Main # Main # b @ [Main]) ?s) = MDone identity"
    if h: "at_main ?s = MRecv \<and> resultChan ?s = [identity] \<and> \<not> crashed ?s \<and> draws_ok b \<and>
        (\<forall>j<length (goroutines ?s). 4 \<le> turns j b)"
  proof -
    let ?t = "step P Main ?s"
    have t: "?t = ?s\<lparr>resultChan := [], at_main := MStore identity\<rparr>"
      using h by (simp add: step_def main_step_def)
    have "search_inv ?t" "safe ?t"
      using v u by (simp_all only: inv_step safe_step)
    moreover have "\<not> crashed ?t"
      using h by (simp add: t)
    moreover have "main_identity ?t = Some identity"
      by (simp add: t main_identity_def)
    moreover have "draws_ok b"
      using h by simp
    moreover have "\<forall>j<length (goroutines ?t). 4 \<le> turns j b"
      using h by (simp add: t)
    ultimately have "at_main (run P (Main # b @ [Main]) ?t) = MDone identity"
      by (rule main_finishes)
    then show ?thesis
      by simp
  qed
  show ?thesis
    using a b c e e' f g publish_step [of i s x P r] by blast
qed

theorem single_result_witness:
  "at_main (run toy (race @ finish) (init (bytes_of ''1'') [] 2)) =
     MDone (newIdentity toy (replicate 64 1)) \<and>
   received toy (race @ finish) (init (bytes_of ''1'') [] 2) = 1 \<and>
   goroutines (run toy (race @ finish) (init (bytes_of ''1'') [] 2)) = [WDone, WDone] \<and>
   at_main (run toy [Main, Worker 0 RandErr] (run toy (race @ finish) (init (bytes_of ''1'') [] 2))) =
     MDone (newIdentity toy (replicate 64 1)) \<and>
   goroutines (run toy (take 10 race) (init (bytes_of ''1'') [] 2)) ! 1 =
     WPublish (newIdentity toy (replicate 64 2)) \<and>
   \<not> crashed (run toy (take 10 race) (init (bytes_of ''1'') [] 2)) \<and>
   resultChan (run toy (take 10 race) (init (bytes_of ''1'') [] 2)) = [] \<and>
   resultChan (step toy (Worker 1 RandErr) (run toy (take 10 race) (init (bytes_of ''1'') [] 2))) =
     [newIdentity toy (replicate 64 2)] \<and>
   goroutines (run toy (take 11 race) (init (bytes_of ''1'') [] 2)) ! 1 =
     WPublish (newIdentity toy (replicate 64 2)) \<and>
   resultChan (run toy (take 11 race) (init (bytes_of ''1'') [] 2)) =
     [newIdentity toy (replicate 64 1)] \<and>
   resultChan (step toy (Worker 1 RandErr) (run toy (take 11 race) (init (bytes_of ''1'') [] 2))) =
     [newIdentity toy (replicate 64 1)] \<and>
   at_main (run toy (take 11 race) (init (bytes_of ''1'') [] 2)) = MRecv \<and>
   draws_ok drain \<and> turns 0 drain = 4 \<and> turns 1 drain = 4 \<and>
   at_main (run toy (Main # Main # drain @ [Main])
              (run toy (take 11 race) (init (bytes_of ''1'') [] 2))) =
     MDone (newIdentity toy (replicate 64 1)) \<and>
   main_identity (run toy late (init (bytes_of ''1'') [] 2)) =
     Some (newIdentity toy (replicate 64 1)) \<and>
   goroutines (run toy late (init (bytes_of ''1'') [] 2)) = [WReturn, WRand] \<and>
   found (run toy late (init (bytes_of ''1'') [] 2)) = 0 \<and>
   totalAttempts (run toy late (init (bytes_of ''1'') [] 2)) = 1 \<and>
   at_main (run toy (Main # drain @ [Main]) (run toy late (init (bytes_of ''1'') [] 2))) =
     MDone (newIdentity toy (replicate 64 1)) \<and>
   totalAttempts (run toy (Main # drain @ [Main]) (run toy late (init (bytes_of ''1'') [] 2))) = 2"
proof -
  let ?i = "init (bytes_of ''1'') [] 2"
  let ?a = "run toy (take 10 race) ?i"
  let ?b = "run toy (take 11 race) ?i"
  let ?l = "run toy late ?i"
  have d: "at_main (run toy (race @ finish) ?i) = MDone (newIdentity toy (replicate 64 1))"
    by (simp add: run_race_finish)
  have g: "goroutines (run toy (race @ finish) ?i) = [WDone, WDone]"
    by (simp add: run_race_finish)
  have "take 11 race = take 10 race @ [Worker 0 RandErr]"
    by (simp add: race_def)
  then have "?b = run toy [Worker 0 RandErr] ?a"
    by (metis run_append)
  then have b: "?b = ?a\<lparr>resultChan := [newIdentity toy (replicate 64 1)],
                        goroutines := [WReturn, WPublish (newIdentity toy (replicate 64 2))]\<rparr>"
    unfolding run_race_prefix by (simp add: eval_step)
  have pa: "1 < length (goroutines ?a)"
    "goroutines ?a ! 1 = WPublish (newIdentity toy (replicate 64 2))" "\<not> crashed ?a"
    "resultChan ?a = []"
    by (simp_all add: run_race_prefix crashed_def)
  have pb: "1 < length (goroutines ?b)"
    "goroutines ?b ! 1 = WPublish (newIdentity toy (replicate 64 2))" "\<not> crashed ?b"
    "resultChan ?b = [newIdentity toy (replicate 64 1)]"
    unfolding b by (simp_all add: run_race_prefix crashed_def)
  have k: "draws_ok drain" "turns 0 drain = 4" "turns 1 drain = 4"
    by (simp_all add: drain_def draws_ok_def draw_ok_def turns_def)
  have k2: "\<forall>j<2. 4 \<le> turns j drain"
    using k(2,3) by (simp add: less_Suc_eq numeral_2_eq_2)
  have e: "bytes_of ''1'' = [49]"
    by (simp add: bytes_of_def)
  note t = single_result [where P = toy and sched = "race @ finish" and pre = "[49]"
      and post = "[]" and n = 2 and identity = "newIdentity toy (replicate 64 1)"
      and later = "[Main, Worker 0 RandErr]" and i = 1
      and x = "newIdentity toy (replicate 64 2)" and r = RandErr]
  from t [where s = ?a] d pa have 1: "received toy (race @ finish) ?i = 1"
    "at_main (run toy [Main, Worker 0 RandErr] (run toy (race @ finish) ?i)) =
       MDone (newIdentity toy (replicate 64 1))"
    "resultChan (step toy (Worker 1 RandErr) ?a) = [newIdentity toy (replicate 64 2)]"
    unfolding e by blast+
  from t [where s = ?b] pb have 2: "resultChan (step toy (Worker 1 RandErr) ?b) = resultChan ?b"
    unfolding e by simp
  have m: "at_main ?b = MRecv" "length (goroutines ?b) = 2"
    unfolding b by (simp_all add: run_race_prefix)
  from single_result [where P = toy and sched = "take 11 race" and pre = "[49]" and post = "[]"
      and n = 2 and identity = "newIdentity toy (replicate 64 1)" and b = drain] m pb(3,4) k(1) k2
  have 3: "at_main (run toy (Main # Main # drain @ [Main]) ?b) =
      MDone (newIdentity toy (replicate 64 1))"
    unfolding e by simp
  have pl: "main_identity ?l = Some (newIdentity toy (replicate 64 1))"
    "goroutines ?l = [WReturn, WRand]" "found ?l = 0" "totalAttempts ?l = 1" "\<not> crashed ?l"
    "length (goroutines ?l) = 2"
    by (simp_all add: run_late main_identity_def crashed_def)
  from single_result [where P = toy and sched = late and pre = "[49]" and post = "[]"
      and n = 2 and identity = "newIdentity toy (replicate 64 1)" and b = drain] pl(1,5,6) k(1) k2
  have 4: "at_main (run toy (Main # drain @ [Main]) ?l) = MDone (newIdentity toy (replicate 64 1))"
    unfolding e by simp
  have 5: "totalAttempts (run toy (Main # drain @ [Main]) ?l) = 2"
    unfolding run_late_drain by simp
  show ?thesis
    using d g pa pb 1 2 m(1) k 3 pl(1-4) 4 5 by simp
qed

end
